theory Spec2Isabelle
  imports Complex_Main
begin

section \<open>JavaScript strings\<close>

text \<open>
  A JavaScript string is a sequence of UTF-16 code units, and \<open>length\<close>, \<open>includes\<close>,
  \<open>indexOf\<close> and \<open>substring\<close> count code units. A code unit is modelled as an integer
  (from 0 to 65535 for every string the browser hands over), a string as a list of them.
  The literals of \<open>src/screenshot-scraper.js\<close> are written with \<open>ascii\<close> for their ASCII
  part and with the code points below for the Slovak letters and the euro sign.
\<close>

type_synonym jschar = int
type_synonym jsstring = "int list"

definition ascii :: "string \<Rightarrow> jsstring" where
  "ascii s = map of_char s"

abbreviation (input) EURO :: jschar where "EURO \<equiv> 8364"
abbreviation (input) a_acute :: jschar where "a_acute \<equiv> 225"
abbreviation (input) e_acute :: jschar where "e_acute \<equiv> 233"
abbreviation (input) i_acute :: jschar where "i_acute \<equiv> 237"
abbreviation (input) o_acute :: jschar where "o_acute \<equiv> 243"
abbreviation (input) o_circumflex :: jschar where "o_circumflex \<equiv> 244"
abbreviation (input) u_acute :: jschar where "u_acute \<equiv> 250"
abbreviation (input) y_acute :: jschar where "y_acute \<equiv> 253"
abbreviation (input) c_caron :: jschar where "c_caron \<equiv> 269"
abbreviation (input) d_caron :: jschar where "d_caron \<equiv> 271"
abbreviation (input) l_acute :: jschar where "l_acute \<equiv> 314"
abbreviation (input) l_caron :: jschar where "l_caron \<equiv> 318"
abbreviation (input) n_caron :: jschar where "n_caron \<equiv> 328"
abbreviation (input) r_acute :: jschar where "r_acute \<equiv> 341"
abbreviation (input) s_caron :: jschar where "s_caron \<equiv> 353"
abbreviation (input) t_caron :: jschar where "t_caron \<equiv> 357"
abbreviation (input) z_caron :: jschar where "z_caron \<equiv> 382"

text \<open>\<open>WhiteSpace\<close> and \<open>LineTerminator\<close> of ECMAScript: what \<open>\s\<close> matches and \<open>trim\<close> removes.\<close>

definition is_space :: "jschar \<Rightarrow> bool" where
  "is_space c \<longleftrightarrow> c \<in> set [9, 10, 11, 12, 13, 32, 160, 5760, 8232, 8233, 8239, 8287, 12288, 65279]
     \<or> (8192 \<le> c \<and> c \<le> 8202)"

definition is_digit :: "jschar \<Rightarrow> bool" where
  "is_digit c \<longleftrightarrow> 48 \<le> c \<and> c \<le> 57"

text \<open>The dot of a regular expression without the \<open>s\<close> flag: anything but a line terminator.\<close>

definition is_dot :: "jschar \<Rightarrow> bool" where
  "is_dot c \<longleftrightarrow> c \<notin> set [10, 13, 8232, 8233]"

text \<open>
  Case mapping of one code unit, as \<open>String.prototype.toUpperCase\<close> and \<open>toLowerCase\<close> do it
  on a one-character string. The tables are those of Unicode for U+0000 to U+017F (Basic Latin,
  Latin-1 Supplement, Latin Extended-A: English and Slovak text); a code unit above U+017F is
  left as it is.
\<close>

definition toUpperCase_unit :: "jschar \<Rightarrow> jsstring" where
  "toUpperCase_unit c =
    (if 97 \<le> c \<and> c \<le> 122 then [c - 32]
     else if c = 181 then [924]
     else if c = 223 then [83, 83]
     else if 224 \<le> c \<and> c \<le> 254 \<and> c \<noteq> 247 then [c - 32]
     else if c = 255 then [376]
     else if 256 \<le> c \<and> c \<le> 303 \<and> odd c then [c - 1]
     else if c = 305 then [73]
     else if 306 \<le> c \<and> c \<le> 311 \<and> odd c then [c - 1]
     else if 313 \<le> c \<and> c \<le> 328 \<and> even c then [c - 1]
     else if c = 329 then [700, 78]
     else if 330 \<le> c \<and> c \<le> 375 \<and> odd c then [c - 1]
     else if 377 \<le> c \<and> c \<le> 382 \<and> even c then [c - 1]
     else if c = 383 then [83]
     else [c])"

definition toLowerCase_unit :: "jschar \<Rightarrow> jsstring" where
  "toLowerCase_unit c =
    (if 65 \<le> c \<and> c \<le> 90 then [c + 32]
     else if 192 \<le> c \<and> c \<le> 222 \<and> c \<noteq> 215 then [c + 32]
     else if 256 \<le> c \<and> c \<le> 303 \<and> even c then [c + 1]
     else if c = 304 then [105, 775]
     else if 306 \<le> c \<and> c \<le> 311 \<and> even c then [c + 1]
     else if 313 \<le> c \<and> c \<le> 328 \<and> odd c then [c + 1]
     else if 330 \<le> c \<and> c \<le> 375 \<and> even c then [c + 1]
     else if c = 376 then [255]
     else if 377 \<le> c \<and> c \<le> 382 \<and> odd c then [c + 1]
     else [c])"

definition toLowerCase :: "jsstring \<Rightarrow> jsstring" where
  "toLowerCase s = concat (map toLowerCase_unit s)"

text \<open>
  \<open>Canonicalize\<close> of ECMAScript for a regular expression with the \<open>i\<close> flag and without
  the \<open>u\<close> flag: the upper-case form when it is one code unit, except that a non-ASCII
  character is never folded onto an ASCII one.
\<close>

definition canonicalize :: "jschar \<Rightarrow> jschar" where
  "canonicalize ch =
    (case toUpperCase_unit ch of
       [cu] \<Rightarrow> if 128 \<le> ch \<and> cu < 128 then ch else cu
     | _ \<Rightarrow> ch)"

fun starts_with :: "jsstring \<Rightarrow> jsstring \<Rightarrow> bool" where
  "starts_with s [] = True"
| "starts_with [] (p # ps) = False"
| "starts_with (c # cs) (p # ps) = (c = p \<and> starts_with cs ps)"

text \<open>\<open>s.includes(p)\<close>.\<close>

fun includes_str :: "jsstring \<Rightarrow> jsstring \<Rightarrow> bool" where
  "includes_str [] p = (p = [])"
| "includes_str (c # cs) p = (starts_with (c # cs) p \<or> includes_str cs p)"

text \<open>\<open>s.indexOf(p)\<close>: the first index where \<open>p\<close> occurs, \<open>-1\<close> when it does not.\<close>

fun indexOf_from :: "nat \<Rightarrow> jsstring \<Rightarrow> jsstring \<Rightarrow> int" where
  "indexOf_from i [] p = (if p = [] then int i else - 1)"
| "indexOf_from i (c # cs) p = (if starts_with (c # cs) p then int i else indexOf_from (Suc i) cs p)"

definition indexOf :: "jsstring \<Rightarrow> jsstring \<Rightarrow> int" where
  "indexOf s p = indexOf_from 0 s p"

text \<open>
  \<open>s.substring(a, b)\<close> and \<open>s.substring(a)\<close>: an index below 0 counts as 0, one above the
  length as the length, and the two are swapped when \<open>a > b\<close>.
\<close>

definition substring :: "jsstring \<Rightarrow> int \<Rightarrow> int \<Rightarrow> jsstring" where
  "substring s a b =
    (let a' = min (nat a) (length s); b' = min (nat b) (length s)
     in take (max a' b' - min a' b') (drop (min a' b') s))"

definition substring_from :: "jsstring \<Rightarrow> int \<Rightarrow> jsstring" where
  "substring_from s a = drop (nat a) s"

definition trim :: "jsstring \<Rightarrow> jsstring" where
  "trim s = rev (dropWhile is_space (rev (dropWhile is_space s)))"

section \<open>Regular expressions\<close>

text \<open>
  The regular expressions of the scraper, run the way a JavaScript engine runs them: a
  backtracking matcher that tries the alternatives in priority order (the left branch of
  \<open>|\<close> first, greedy quantifiers the longest first) and takes the first success, at the
  leftmost start index that has one. \<open>rx_run r s (c, i)\<close> lists, in that order, every way
  \<open>r\<close> can match \<open>s\<close> from index \<open>i\<close>: the captures and the end index.
\<close>

datatype rx =
    Eps
  | Chr "jschar \<Rightarrow> bool"
  | Seq rx rx
  | Alt rx rx
  | Opt rx
  | Star rx
  | Grp nat rx
  | Bol
  | Eol

type_synonym caps = "nat \<Rightarrow> jsstring option"
type_synonym rx_state = "caps \<times> nat"

text \<open>
  A greedy \<open>*\<close>: one more iteration first, then none. An iteration that consumes nothing is
  refused (the empty check of \<open>RepeatMatcher\<close>), so there are at most as many iterations as
  code units left, which is the bound \<open>n\<close>.
\<close>

primrec star_run :: "nat \<Rightarrow> (rx_state \<Rightarrow> rx_state list) \<Rightarrow> rx_state \<Rightarrow> rx_state list" where
  "star_run 0 f st = [st]"
| "star_run (Suc n) f st =
     concat (map (\<lambda>st'. if snd st < snd st' then star_run n f st' else []) (f st)) @ [st]"

primrec rx_run :: "rx \<Rightarrow> jsstring \<Rightarrow> rx_state \<Rightarrow> rx_state list" where
  "rx_run Eps s st = [st]"
| "rx_run (Chr p) s st =
     (if snd st < length s \<and> p (s ! snd st) then [(fst st, Suc (snd st))] else [])"
| "rx_run (Seq a b) s st = concat (map (rx_run b s) (rx_run a s st))"
| "rx_run (Alt a b) s st = rx_run a s st @ rx_run b s st"
| "rx_run (Opt a) s st = rx_run a s st @ [st]"
| "rx_run (Star a) s st = star_run (length s - snd st) (rx_run a s) st"
| "rx_run (Grp k a) s st =
     map (\<lambda>st'. ((fst st')(k \<mapsto> take (snd st' - snd st) (drop (snd st) s)), snd st'))
       (rx_run a s st)"
| "rx_run Bol s st = (if snd st = 0 then [st] else [])"
| "rx_run Eol s st = (if snd st = length s then [st] else [])"

text \<open>\<open>a+\<close> is \<open>aa*\<close>; a literal is the sequence of its characters.\<close>

definition Plus :: "rx \<Rightarrow> rx" where
  "Plus a = Seq a (Star a)"

definition seqs :: "rx list \<Rightarrow> rx" where
  "seqs rs = foldr Seq rs Eps"

definition alts :: "rx \<Rightarrow> rx list \<Rightarrow> rx" where
  "alts r rs = foldr (\<lambda>a b. Alt a b) (butlast (r # rs)) (last (r # rs))"

definition lit :: "jsstring \<Rightarrow> rx" where
  "lit w = seqs (map (\<lambda>c. Chr (\<lambda>d. d = c)) w)"

text \<open>With the \<open>i\<close> flag two characters match when their canonical forms are equal.\<close>

definition lit_i :: "jsstring \<Rightarrow> rx" where
  "lit_i w = seqs (map (\<lambda>c. Chr (\<lambda>d. canonicalize d = canonicalize c)) w)"

definition class_i :: "jschar list \<Rightarrow> rx" where
  "class_i cs = Chr (\<lambda>d. canonicalize d \<in> set (map canonicalize cs))"

text \<open>
  \<open>RegExp.prototype.exec\<close> from index \<open>from\<close> (0 without the \<open>g\<close> flag): the leftmost start
  index with a match, the matched text and the captures of the first way to match there.
\<close>

record rx_match =
  m_index :: nat
  m_text :: jsstring
  m_groups :: caps

definition rx_exec_from :: "rx \<Rightarrow> jsstring \<Rightarrow> nat \<Rightarrow> rx_match option" where
  "rx_exec_from r s from =
    (case List.find (\<lambda>i. rx_run r s (Map.empty, i) \<noteq> []) [from..<Suc (length s)] of
       None \<Rightarrow> None
     | Some i \<Rightarrow>
        (case hd (rx_run r s (Map.empty, i)) of
           (c, j) \<Rightarrow> Some \<lparr>m_index = i, m_text = take (j - i) (drop i s), m_groups = c\<rparr>))"

definition rx_exec :: "rx \<Rightarrow> jsstring \<Rightarrow> rx_match option" where
  "rx_exec r s = rx_exec_from r s 0"

text \<open>\<open>r.test(s)\<close>.\<close>

definition rx_test :: "rx \<Rightarrow> jsstring \<Rightarrow> bool" where
  "rx_test r s \<longleftrightarrow> rx_exec r s \<noteq> None"

text \<open>\<open>s.replace(r, rep)\<close> for \<open>r\<close> without the \<open>g\<close> flag: the first match is replaced.\<close>

definition replace_first :: "rx \<Rightarrow> jsstring \<Rightarrow> jsstring \<Rightarrow> jsstring" where
  "replace_first r rep s =
    (case rx_exec r s of
       None \<Rightarrow> s
     | Some m \<Rightarrow> take (m_index m) s @ rep @ drop (m_index m + length (m_text m)) s)"

text \<open>
  \<open>s.replace(r, rep)\<close> for \<open>r\<close> with the \<open>g\<close> flag: every match, found from the end of the
  one before (one code unit further after an empty match), is replaced. \<open>n\<close> bounds the
  number of matches; \<open>replace_all\<close> gives it one more than the length of the string, and
  each match starts at least one code unit after the one before.
\<close>

primrec replace_all_from :: "nat \<Rightarrow> rx \<Rightarrow> jsstring \<Rightarrow> jsstring \<Rightarrow> nat \<Rightarrow> jsstring" where
  "replace_all_from 0 r rep s i = drop i s"
| "replace_all_from (Suc n) r rep s i =
    (case rx_exec_from r s i of
       None \<Rightarrow> drop i s
     | Some m \<Rightarrow>
         take (m_index m - i) (drop i s) @ rep @
         (if m_text m = []
          then take 1 (drop (m_index m) s) @ replace_all_from n r rep s (Suc (m_index m))
          else replace_all_from n r rep s (m_index m + length (m_text m))))"

definition replace_all :: "rx \<Rightarrow> jsstring \<Rightarrow> jsstring \<Rightarrow> jsstring" where
  "replace_all r rep s = replace_all_from (Suc (length s)) r rep s 0"

section \<open>The page as the scraper sees it\<close>

text \<open>
  What the code run by \<open>page.evaluate\<close> reads of the document: the elements in document
  order, each with its tag, whether it has \<open>role="region"\<close>, its \<open>textContent\<close>, the top
  of its box in document coordinates, and its \<open>li\<close> descendants (\<open>querySelectorAll("li")\<close>)
  with their text and boxes. \<open>getBoundingClientRect().top\<close> is the document coordinate
  minus the scroll offset. Coordinates are whole CSS pixels.
\<close>

datatype tag = SECTION | DIV | ARTICLE | MAIN | OTHER

record li_node =
  li_textContent :: jsstring
  li_top :: int
  li_height :: int

record element =
  el_tag :: tag
  el_role_region :: bool
  el_textContent :: jsstring
  el_top :: int
  el_li :: "li_node list"

type_synonym document = "element list"

datatype selector = Sel_section | Sel_div | Sel_article | Sel_main | Sel_role_region

fun matches_selector :: "selector \<Rightarrow> element \<Rightarrow> bool" where
  "matches_selector Sel_section e = (el_tag e = SECTION)"
| "matches_selector Sel_div e = (el_tag e = DIV)"
| "matches_selector Sel_article e = (el_tag e = ARTICLE)"
| "matches_selector Sel_main e = (el_tag e = MAIN)"
| "matches_selector Sel_role_region e = el_role_region e"

text \<open>\<open>document.querySelectorAll(sel)\<close> for a selector list: document order.\<close>

definition querySelectorAll :: "selector list \<Rightarrow> document \<Rightarrow> element list" where
  "querySelectorAll sels doc = filter (\<lambda>e. list_ex (\<lambda>sel. matches_selector sel e) sels) doc"

section \<open>Section Classifier\<close>

definition excludePatterns :: "jsstring list" where
  "excludePatterns =
    [ ascii ''ob'' @ [l_caron, u_acute] @ ascii ''ben'' @ [e_acute],
      ascii ''oblubene'',
      ascii ''popul'' @ [a_acute] @ ascii ''rne'',
      ascii ''popular'',
      ascii ''favorites'',
      ascii ''burger central'',
      ascii ''dom'' @ [a_acute] @ ascii ''ca slovensk'' @ [a_acute] @ ascii '' klasika'',
      ascii ''hlavn'' @ [e_acute] @ ascii '' jedl'' @ [a_acute] ]"

definition denne_menu :: jsstring where
  "denne_menu = ascii ''denn'' @ [e_acute] @ ascii '' menu''"

definition poloziek :: jsstring where
  "poloziek = ascii ''polo'' @ [z_caron] @ ascii ''iek''"

definition stvrtok :: jsstring where
  "stvrtok = [s_caron] @ ascii ''tvrtok''"

definition nedela :: jsstring where
  "nedela = ascii ''nede'' @ [l_caron] @ ascii ''a''"

text \<open>
  \<open>dailyMenuPatterns\<close> as \<open>scrapeRestaurant\<close> (lines 268 to 272) and
  \<open>extractMenuFromScreenshot\<close> (lines 603 to 607) declare it.
\<close>

definition dailyMenuPatterns :: "rx list" where
  "dailyMenuPatterns =
    [ Seq (lit_i (denne_menu @ ascii '' ''))
        (Grp 1 (alts (lit_i (ascii ''pondelok'')) [lit_i (ascii ''utorok''), lit_i (ascii ''streda''),
           lit_i stvrtok, lit_i (ascii ''piatok''), lit_i (ascii ''sobota''), lit_i nedela])),
      Seq (lit_i (ascii ''daily menu ''))
        (Grp 1 (alts (lit_i (ascii ''monday'')) [lit_i (ascii ''tuesday''), lit_i (ascii ''wednesday''),
           lit_i (ascii ''thursday''), lit_i (ascii ''friday''), lit_i (ascii ''saturday''),
           lit_i (ascii ''sunday'')])),
      Seq (lit_i (ascii ''denne menu ''))
        (Grp 1 (alts (lit_i (ascii ''pondelok'')) [lit_i (ascii ''utorok''), lit_i (ascii ''streda''),
           lit_i stvrtok, lit_i (ascii ''piatok''), lit_i (ascii ''sobota''), lit_i nedela])) ]"

text \<open>\<open>dailyMenuPatterns\<close> as \<open>extractItemsFromCurrentViewport\<close> (lines 430 to 434) declares it.\<close>

definition dailyMenuPatterns_viewport :: "rx list" where
  "dailyMenuPatterns_viewport =
    [ Seq (lit_i (denne_menu @ ascii '' ''))
        (Grp 1 (alts (lit_i (ascii ''pondelok'')) [lit_i (ascii ''utorak''), lit_i (ascii ''streda''),
           lit_i stvrtok, lit_i (ascii ''piatok''), lit_i (ascii ''sobota''), lit_i nedela])),
      Seq (lit_i (ascii ''daily menu ''))
        (Grp 1 (alts (lit_i (ascii ''monday'')) [lit_i (ascii ''tuesday''), lit_i (ascii ''wednesday''),
           lit_i (ascii ''thursday''), lit_i (ascii ''friday''), lit_i (ascii ''saturday''),
           lit_i (ascii ''sunday'')])),
      Seq (lit_i (ascii ''denne menu ''))
        (Grp 1 (alts (lit_i (ascii ''pondelok'')) [lit_i (ascii ''utorok''), lit_i (ascii ''streda''),
           lit_i stvrtok, lit_i (ascii ''piatok''), lit_i (ascii ''sobota''), lit_i nedela])) ]"

text \<open>
  The callback of \<open>find\<close>, the same text in the three places but for the pattern list it
  closes over: \<open>el.textContent\<close> in, accepted or not out.
\<close>

definition is_daily_menu :: "rx list \<Rightarrow> jsstring \<Rightarrow> bool" where
  "is_daily_menu patterns textContent =
    (if textContent = [] then False
     else
       let text = toLowerCase textContent in
       if list_ex (\<lambda>pattern. includes_str text pattern) excludePatterns then False
       else
         list_ex (\<lambda>pattern. rx_test pattern text) patterns \<or>
         (includes_str text denne_menu \<and> includes_str text poloziek \<and>
          \<not> list_ex (\<lambda>pattern. includes_str text pattern) excludePatterns))"

text \<open>
  The section of the best-viewport tracking (lines 244 to 280): the first accepted element,
  in document order, of one \<open>querySelectorAll\<close> over the five selectors.
\<close>

definition find_section_tracking :: "document \<Rightarrow> element option" where
  "find_section_tracking doc =
    List.find (\<lambda>el. is_daily_menu dailyMenuPatterns (el_textContent el))
      (querySelectorAll [Sel_section, Sel_div, Sel_article, Sel_main, Sel_role_region] doc)"

text \<open>
  The section of the two extraction passes (lines 406 to 455 and 577 to 630): for each
  selector in turn the first accepted element, the misses dropped by \<open>filter(Boolean)\<close>,
  and the first of what is left.
\<close>

definition find_section_extraction :: "rx list \<Rightarrow> document \<Rightarrow> element option" where
  "find_section_extraction patterns doc =
    (case List.map_filter
            (\<lambda>sel. List.find (\<lambda>el. is_daily_menu patterns (el_textContent el))
                      (querySelectorAll [sel] doc))
            [Sel_section, Sel_div, Sel_article, Sel_main, Sel_role_region] of
       [] \<Rightarrow> None
     | dailyMenuSection # _ \<Rightarrow> Some dailyMenuSection)"

section \<open>Item Parser\<close>

datatype viewport_tag = Step nat | Unknown

record menu_item =
  name :: jsstring
  price :: jsstring
  category :: jsstring
  description :: jsstring
  screenshot :: bool
  source :: "jsstring option"
  viewport :: "viewport_tag option"

definition rx_digits :: rx where
  "rx_digits = Plus (Chr is_digit)"

definition rx_spaces :: rx where
  "rx_spaces = Star (Chr is_space)"

text \<open>\<open>/(\d+,\d+\s*\<euro>)/\<close>\<close>

definition price_re :: rx where
  "price_re = Grp 1 (seqs [rx_digits, Chr (\<lambda>c. c = 44), rx_digits, rx_spaces, Chr (\<lambda>c. c = EURO)])"

text \<open>
  \<open>/^(Samostatna polievka:\s*|Polievka [0-9]:\s*|Menu [0-9]:\s*)/i\<close>, the last letter of
  the first word being a with acute.
\<close>

definition prefix_re :: rx where
  "prefix_re =
    Seq Bol (Grp 1 (alts
      (seqs [lit_i (ascii ''Samostatn'' @ [a_acute] @ ascii '' polievka:''), rx_spaces])
      [seqs [lit_i (ascii ''Polievka ''), Chr is_digit, lit_i (ascii '':''), rx_spaces],
       seqs [lit_i (ascii ''Menu ''), Chr is_digit, lit_i (ascii '':''), rx_spaces]]))"

text \<open>\<open>/od$/\<close>, \<open>/[,.]od$/\<close>, \<open>/\.od$/\<close> and \<open>/[,.]$/\<close>\<close>

definition od_end_re :: rx where
  "od_end_re = seqs [lit (ascii ''od''), Eol]"

definition punct_od_end_re :: rx where
  "punct_od_end_re = seqs [Chr (\<lambda>c. c = 44 \<or> c = 46), lit (ascii ''od''), Eol]"

definition dot_od_end_re :: rx where
  "dot_od_end_re = seqs [Chr (\<lambda>c. c = 46), lit (ascii ''od''), Eol]"

definition punct_end_re :: rx where
  "punct_end_re = seqs [Chr (\<lambda>c. c = 44 \<or> c = 46), Eol]"

text \<open>\<open>/(od\s+)?(\d+,\d+)\s*\<euro>/\<close>\<close>

definition pricePattern :: rx where
  "pricePattern =
    seqs [Opt (Grp 1 (seqs [lit (ascii ''od''), Plus (Chr is_space)])),
          Grp 2 (seqs [rx_digits, Chr (\<lambda>c. c = 44), rx_digits]),
          rx_spaces, Chr (\<lambda>c. c = EURO)]"

text \<open>
  \<open>/popis jedla.*$/i\<close>, \<open>/\d+,\d+\s*\<euro>.*$/g\<close>, \<open>/\d+,\d+kg.*$/g\<close> and
  \<open>/\d+,\d+l.*$/g\<close>
\<close>

definition popis_re :: rx where
  "popis_re = seqs [lit_i (ascii ''popis jedla''), Star (Chr is_dot), Eol]"

definition price_tail_re :: rx where
  "price_tail_re =
    seqs [rx_digits, Chr (\<lambda>c. c = 44), rx_digits, rx_spaces, Chr (\<lambda>c. c = EURO),
          Star (Chr is_dot), Eol]"

definition kg_tail_re :: rx where
  "kg_tail_re =
    seqs [rx_digits, Chr (\<lambda>c. c = 44), rx_digits, lit (ascii ''kg''), Star (Chr is_dot), Eol]"

definition l_tail_re :: rx where
  "l_tail_re =
    seqs [rx_digits, Chr (\<lambda>c. c = 44), rx_digits, lit (ascii ''l''), Star (Chr is_dot), Eol]"

text \<open>
  \<open>/(Denne menu [a-z...]+|Daily menu|Menu dna)/i\<close>, with the Slovak letters of the source:
  the class holds a to z and the sixteen accented lower-case letters listed below.
\<close>

definition category_re :: rx where
  "category_re =
    Grp 1 (alts
      (seqs [lit_i (ascii ''Denn'' @ [e_acute] @ ascii '' menu ''),
             Plus (class_i (map int [97..<123] @
               [a_acute, c_caron, d_caron, e_acute, i_acute, l_acute, l_caron, n_caron, o_acute,
                o_circumflex, r_acute, s_caron, t_caron, u_acute, y_acute, z_caron]))])
      [lit_i (ascii ''Daily menu''), lit_i (ascii ''Menu d'' @ [n_caron] @ ascii ''a'')])"

text \<open>The name: what stands before the first price, prefix and trailing connector stripped.\<close>

definition item_name :: "jsstring \<Rightarrow> int \<Rightarrow> jsstring" where
  "item_name cleanText firstPriceIndex =
    (let name = trim (substring cleanText 0 firstPriceIndex);
         name = replace_first prefix_re [] name;
         name = replace_first od_end_re [] name;
         name = replace_first punct_od_end_re [] name;
         name = replace_first dot_od_end_re [] name;
         name = replace_first punct_end_re [] name
     in trim name)"

text \<open>
  The price: a capture that did not take part is \<open>undefined\<close> (here \<open>None\<close>), which is
  falsy in the conditional and prints as \<open>undefined\<close> in a template literal.
\<close>

definition item_price :: "jsstring \<Rightarrow> jsstring" where
  "item_price cleanText =
    (case rx_exec pricePattern cleanText of
       None \<Rightarrow> ascii ''N/A''
     | Some priceMatch2 \<Rightarrow>
        (let amount = (case m_groups priceMatch2 2 of Some g \<Rightarrow> g | None \<Rightarrow> ascii ''undefined'')
         in if (case m_groups priceMatch2 1 of Some g \<Rightarrow> g \<noteq> [] | None \<Rightarrow> False)
            then ascii ''od '' @ amount @ ascii '' '' @ [EURO]
            else amount @ ascii '' '' @ [EURO]))"

definition item_description :: "jsstring \<Rightarrow> jsstring \<Rightarrow> int \<Rightarrow> jsstring \<Rightarrow> jsstring" where
  "item_description defaultDescription cleanText firstPriceIndex matched =
    (let description = substring_from cleanText (firstPriceIndex + int (length matched));
         description = replace_first popis_re [] description;
         description = replace_all price_tail_re [] description;
         description = replace_all kg_tail_re [] description;
         description = replace_all l_tail_re [] description;
         description = trim description
     in if description = [] then defaultDescription else description)"

definition item_category :: "jsstring \<Rightarrow> jsstring" where
  "item_category sectionText =
    (case rx_exec category_re sectionText of
       Some m \<Rightarrow> if m_text m = [] then ascii ''Daily Menu'' else m_text m
     | None \<Rightarrow> ascii ''Daily Menu'')"

text \<open>
  The body of \<open>visibleItems.forEach\<close>, the same in \<open>extractItemsFromCurrentViewport\<close>
  (lines 469 to 537) and in \<open>extractMenuFromScreenshot\<close> (lines 660 to 750) but for the
  shortest text kept (15 and 5), the default description and the \<open>viewport\<close> field:
  \<open>None\<close> when the \<open>li\<close> is skipped or the item rejected.
\<close>

definition parse_item ::
  "nat \<Rightarrow> jsstring \<Rightarrow> viewport_tag \<Rightarrow> jsstring \<Rightarrow> jsstring \<Rightarrow> menu_item option" where
  "parse_item minLength defaultDescription vp sectionText textContent =
    (let itemText = trim textContent in
     if length itemText < minLength \<or>
        includes_str itemText (ascii ''Denn'' @ [e_acute] @ ascii '' menu'') \<or>
        includes_str itemText poloziek \<or>
        includes_str itemText (ascii ''Zobraz viac'') \<or>
        \<not> includes_str itemText [EURO]
     then None
     else
       let cleanText = trim (replace_all (Plus (Chr is_space)) (ascii '' '') itemText) in
       case rx_exec price_re cleanText of
         None \<Rightarrow> None
       | Some priceMatch \<Rightarrow>
          (let firstPriceIndex = indexOf cleanText (m_text priceMatch);
               name = item_name cleanText firstPriceIndex;
               price = item_price cleanText;
               description =
                 item_description defaultDescription cleanText firstPriceIndex (m_text priceMatch)
           in if name \<noteq> [] \<and> 3 < length name \<and> \<not> includes_str name [EURO]
              then Some \<lparr>name = name, price = price, category = item_category sectionText,
                     description = description, screenshot = True,
                     source = Some (ascii ''daily-menu-section''), viewport = Some vp\<rparr>
              else None))"

text \<open>The \<open>li\<close> elements kept by the \<open>visibleItems\<close> filter of the two extraction passes.\<close>

definition li_visible :: "int \<Rightarrow> int \<Rightarrow> li_node \<Rightarrow> bool" where
  "li_visible scrollY innerHeight item \<longleftrightarrow>
     0 \<le> li_top item - scrollY \<and> li_top item - scrollY \<le> innerHeight \<and> 10 < li_height item"

text \<open>
  The function \<open>extractItemsFromCurrentViewport\<close> runs in the page (lines 403 to 541), and
  the one \<open>extractMenuFromScreenshot\<close> runs there (lines 562 to 786), console output left out.
\<close>

definition extract_in_page ::
  "rx list \<Rightarrow> nat \<Rightarrow> jsstring \<Rightarrow> viewport_tag \<Rightarrow> document \<Rightarrow> int \<Rightarrow> int \<Rightarrow> menu_item list" where
  "extract_in_page patterns minLength defaultDescription vp doc scrollY innerHeight =
    (case find_section_extraction patterns doc of
       None \<Rightarrow> []
     | Some dailyMenuSection \<Rightarrow>
         List.map_filter
           (\<lambda>item. parse_item minLength defaultDescription vp
                     (el_textContent dailyMenuSection) (li_textContent item))
           (filter (li_visible scrollY innerHeight) (el_li dailyMenuSection)))"

definition viewport_extract :: "nat \<Rightarrow> document \<Rightarrow> int \<Rightarrow> int \<Rightarrow> menu_item list" where
  "viewport_extract viewportNumber =
     extract_in_page dailyMenuPatterns_viewport 15 (ascii ''Daily menu item'') (Step viewportNumber)"

definition fallback_extract :: "viewport_tag \<Rightarrow> document \<Rightarrow> int \<Rightarrow> int \<Rightarrow> menu_item list" where
  "fallback_extract vp =
     extract_in_page dailyMenuPatterns 5 (ascii ''Denne menu item'') vp"

section \<open>The browser and the scraper object\<close>

text \<open>
  The scraper drives one automated browser. Every call it makes on the browser is recorded
  in \<open>calls\<close>, oldest first; a call on a page names the page it is made on.
\<close>

datatype page_op =
    AddInitScript
  | Goto jsstring int
  | WaitForTimeout int
  | Eval_cloudflareDetected
  | Eval_stillProtected
  | IsVisible nat
  | Click nat
  | Locator_all
  | Click_dialogButton
  | WaitForSelector jsstring
  | Eval_scrollPass
  | Eval_innerHeight
  | Eval_scrollHeight
  | Eval_scrollTo int
  | Screenshot jsstring bool
  | Eval_dailyMenuInfo nat
  | Eval_viewportItems nat
  | Eval_fallbackItems
  | Eval_consoleLogs
  | Close_page

datatype call =
    EnsureDir
  | Launch
  | NewContext
  | NewPage nat
  | OnPage nat page_op
  | Close_browser

record best_viewport =
  bv_visible :: bool
  bv_totalItems :: nat
  bv_visibleItems :: nat
  bv_sampleText :: "jsstring option"
  bv_scrollY :: int
  bv_stepNumber :: nat

text \<open>
  The fields of the \<open>ScreenshotScraper\<close> object (\<open>page\<close> is \<open>None\<close> for \<open>null\<close>), and
  the state of the browser it drives: the address and scroll offset of the page, the calls
  made so far, and the handle the next new page gets.
\<close>

record state =
  page :: "nat option"
  browser :: bool
  timeout :: "int option"
  screenshotDir :: jsstring
  bestDailyMenuViewport :: "best_viewport option"
  location :: jsstring
  scrollY :: int
  calls :: "call list"
  next_page :: nat

record site =
  site_name :: jsstring
  site_url :: jsstring
  enabled :: bool
  customScript :: "jsstring option"
  waitForSelector :: "jsstring option"

text \<open>
  An asynchronous method: from the state to what it throws (\<open>Inl\<close>, the message of the
  error) or returns (\<open>Inr\<close>), and the state it leaves. The logger calls are left out.
\<close>

type_synonym 'a io = "state \<Rightarrow> (jsstring + 'a) \<times> state"

text \<open>
  What the outside decides: which call throws (the \<open>n\<close>-th call of the run throws the
  message \<open>throws n\<close>, a navigation timeout for one), the size of the window, and for the
  address loaded the height, title and text of the document, the elements it shows at a
  scroll offset (lazy loading makes them depend on it), which of the consent selectors has
  a visible button, how many dialog buttons there are, the clock (what
  \<open>new Date().toISOString()\<close> gives after \<open>n\<close> calls), \<open>path.join\<close> of the platform, and
  what the script of a site has done when its evaluation settles. The script is evaluated
  in the process of the scraper, as the body of an arrow function inside
  \<open>scrapeRestaurant\<close>, so \<open>this\<close> is the scraper: the script can make any call on the
  browser and assign any field of the scraper, it can close the page or put another one in
  \<open>this.page\<close>, and it can throw. It is any method. What a script could do to anything
  else (assign to the site record, replace a method of the scraper, never settle) has no
  counterpart here.
\<close>

record world =
  throws :: "nat \<Rightarrow> jsstring option"
  innerHeight :: int
  scrollHeight :: "jsstring \<Rightarrow> int"
  title :: "jsstring \<Rightarrow> jsstring"
  bodyText :: "jsstring \<Rightarrow> jsstring"
  document_at :: "jsstring \<Rightarrow> int \<Rightarrow> document"
  selector_visible :: "jsstring \<Rightarrow> nat \<Rightarrow> bool"
  dialogButtons :: "jsstring \<Rightarrow> nat"
  clock :: "nat \<Rightarrow> jsstring"
  path_join :: "jsstring \<Rightarrow> jsstring \<Rightarrow> jsstring"
  eval_script :: "site \<Rightarrow> unit io"

definition io_return :: "'a \<Rightarrow> 'a io" where
  "io_return x s = (Inr x, s)"

definition io_bind :: "'a io \<Rightarrow> ('a \<Rightarrow> 'b io) \<Rightarrow> 'b io" where
  "io_bind m f s = (case m s of (Inl e, s') \<Rightarrow> (Inl e, s') | (Inr x, s') \<Rightarrow> f x s')"

definition io_then :: "'a io \<Rightarrow> 'b io \<Rightarrow> 'b io" where
  "io_then m k = io_bind m (\<lambda>_. k)"

definition io_catch :: "'a io \<Rightarrow> (jsstring \<Rightarrow> 'a io) \<Rightarrow> 'a io" where
  "io_catch m h s = (case m s of (Inl e, s') \<Rightarrow> h e s' | (Inr x, s') \<Rightarrow> (Inr x, s'))"

definition io_get :: "(state \<Rightarrow> 'a) \<Rightarrow> 'a io" where
  "io_get f s = (Inr (f s), s)"

definition io_modify :: "(state \<Rightarrow> state) \<Rightarrow> unit io" where
  "io_modify f s = (Inr (), f s)"

definition browser_call :: "world \<Rightarrow> call \<Rightarrow> unit io" where
  "browser_call w c s =
    (case throws w (length (calls s)) of
       Some message \<Rightarrow> (Inl message, s\<lparr>calls := calls s @ [c]\<rparr>)
     | None \<Rightarrow> (Inr (), s\<lparr>calls := calls s @ [c]\<rparr>))"

text \<open>A method call on \<open>this.page\<close>: a \<open>TypeError\<close> when the page is \<open>null\<close>.\<close>

definition page_call :: "world \<Rightarrow> page_op \<Rightarrow> unit io" where
  "page_call w op s =
    (case page s of
       None \<Rightarrow> (Inl (ascii ''Cannot read properties of null''), s)
     | Some p \<Rightarrow> browser_call w (OnPage p op) s)"

text \<open>\<open>page.evaluate\<close> of a function that reads the document.\<close>

definition evaluate :: "world \<Rightarrow> page_op \<Rightarrow> (state \<Rightarrow> 'a) \<Rightarrow> 'a io" where
  "evaluate w op f = io_then (page_call w op) (io_get f)"

text \<open>\<open>window.scrollTo(0, y)\<close>: the browser keeps the offset inside the document.\<close>

definition scrollTo :: "world \<Rightarrow> int \<Rightarrow> unit io" where
  "scrollTo w y =
    io_then (page_call w (Eval_scrollTo y))
      (io_modify (\<lambda>s. s\<lparr>scrollY := max 0 (min y (scrollHeight w (location s) - innerHeight w))\<rparr>))"

definition goto :: "world \<Rightarrow> jsstring \<Rightarrow> int \<Rightarrow> unit io" where
  "goto w url ms =
    io_then (page_call w (Goto url ms)) (io_modify (\<lambda>s. s\<lparr>location := url, scrollY := 0\<rparr>))"

section \<open>Site Runner\<close>

definition initialize :: "world \<Rightarrow> bool io" where
  "initialize w =
    io_catch
      (io_then (browser_call w EnsureDir)
      (io_then (browser_call w Launch)
      (io_then (io_modify (\<lambda>s. s\<lparr>browser := True\<rparr>))
      (io_then (browser_call w NewContext)
      (io_bind (io_get next_page) (\<lambda>p.
       io_then (browser_call w (NewPage p))
      (io_then (io_modify (\<lambda>s. s\<lparr>page := Some p, next_page := Suc p, location := [], scrollY := 0\<rparr>))
      (io_then (page_call w AddInitScript)
      (io_return True)))))))))
      (\<lambda>error. io_return False)"

definition close :: "world \<Rightarrow> unit io" where
  "close w =
    io_catch
      (io_bind (io_get page) (\<lambda>p.
       io_then (if p \<noteq> None then page_call w Close_page else io_return ())
      (io_bind (io_get browser) (\<lambda>b.
       if b then browser_call w Close_browser else io_return ()))))
      (\<lambda>error. io_return ())"

definition cloudflare_indicators :: "jsstring list" where
  "cloudflare_indicators =
    [ascii ''verifying you are human'', ascii ''checking your browser'', ascii ''cloudflare'',
     ascii ''please wait while we check your browser'', ascii ''this may take a few seconds'']"

definition handleCloudflareProtection :: "world \<Rightarrow> bool io" where
  "handleCloudflareProtection w =
    io_catch
      (io_bind
        (evaluate w Eval_cloudflareDetected
          (\<lambda>s. list_ex (\<lambda>indicator.
                  includes_str (toLowerCase (title w (location s))) indicator \<or>
                  includes_str (toLowerCase (bodyText w (location s))) indicator)
                cloudflare_indicators))
        (\<lambda>cloudflareDetected.
          if cloudflareDetected
          then io_then (page_call w (WaitForTimeout 5000))
                 (evaluate w Eval_stillProtected
                   (\<lambda>s. includes_str (toLowerCase (bodyText w (location s)))
                           (ascii ''verifying you are human'') \<or>
                         includes_str (toLowerCase (bodyText w (location s)))
                           (ascii ''checking your browser'')))
          else io_return False))
      (\<lambda>error. io_return False)"

text \<open>
  The loop over \<open>cookieSelectors\<close> (lines 116 to 129), the selectors held as their indices
  in the list: the first selector whose button is visible and whose click and wait go
  through ends the loop; whatever one selector throws is swallowed and the next is tried.
\<close>

fun try_cookieSelectors :: "world \<Rightarrow> nat list \<Rightarrow> bool io" where
  "try_cookieSelectors w [] = io_return False"
| "try_cookieSelectors w (selector # rest) =
    io_bind
      (io_catch
        (io_bind (evaluate w (IsVisible selector) (\<lambda>s. selector_visible w (location s) selector))
          (\<lambda>visible.
            if visible
            then io_then (page_call w (Click selector))
                (io_then (page_call w (WaitForTimeout 3000)) (io_return True))
            else io_return False))
        (\<lambda>e. io_return False))
      (\<lambda>cookieAccepted.
        if cookieAccepted then io_return True else try_cookieSelectors w rest)"

definition handle_cookies :: "world \<Rightarrow> unit io" where
  "handle_cookies w =
    io_catch
      (io_then (page_call w (WaitForTimeout 3000))
      (io_bind (try_cookieSelectors w [0..<13]) (\<lambda>cookieAccepted.
       if \<not> cookieAccepted
       then io_catch
              (io_bind (evaluate w Locator_all (\<lambda>s. dialogButtons w (location s)))
                (\<lambda>n. if 0 < n
                      then io_then (page_call w Click_dialogButton)
                             (page_call w (WaitForTimeout 3000))
                      else io_return ()))
              (\<lambda>e. io_return ())
       else io_return ())))
      (\<lambda>error. io_return ())"

text \<open>
  \<open>eval\<close> of the site's script (lines 154 to 161), when the site has one that is not the
  empty string: the script does what the world says it does, and what it throws is
  swallowed.
\<close>

definition run_customScript :: "world \<Rightarrow> site \<Rightarrow> unit io" where
  "run_customScript w st =
    (case customScript st of
       None \<Rightarrow> io_return ()
     | Some script \<Rightarrow>
         if script = [] then io_return ()
         else io_catch (eval_script w st) (\<lambda>error. io_return ()))"

definition wait_for_selector :: "world \<Rightarrow> site \<Rightarrow> unit io" where
  "wait_for_selector w st =
    (case waitForSelector st of
       None \<Rightarrow> io_return ()
     | Some sel \<Rightarrow> if sel = [] then io_return () else page_call w (WaitForSelector sel))"

text \<open>The scroll to the bottom and back that triggers lazy loading (lines 169 to 194).\<close>

definition scroll_to_load :: "world \<Rightarrow> unit io" where
  "scroll_to_load w =
    io_catch
      (io_then (page_call w Eval_scrollPass)
      (io_then (io_modify (\<lambda>s. s\<lparr>scrollY := 0\<rparr>))
      (page_call w (WaitForTimeout 2000))))
      (\<lambda>error. io_return ())"

section \<open>Progressive Viewport Sampler\<close>

text \<open>
  \<open>Math.ceil(totalHeight / viewportHeight)\<close> for two integers: a division by zero gives an
  infinity or \<open>NaN\<close>. The quotient is taken exactly; the double the engine computes has the
  same ceiling for heights below \<open>2^31\<close>, which are those a browser reports.
\<close>

datatype jsnum = Finite int | PosInfinity | NegInfinity | NaN

definition scrollSteps_of :: "int \<Rightarrow> int \<Rightarrow> jsnum" where
  "scrollSteps_of totalHeight viewportHeight =
    (if viewportHeight = 0
     then (if totalHeight = 0 then NaN else if 0 < totalHeight then PosInfinity else NegInfinity)
     else Finite \<lceil>(of_int totalHeight :: rat) / of_int viewportHeight\<rceil>)"

text \<open>The loop condition \<open>step < Math.min(scrollSteps, 3)\<close>.\<close>

fun step_below_min3 :: "nat \<Rightarrow> jsnum \<Rightarrow> bool" where
  "step_below_min3 step (Finite n) = (int step < min n 3)"
| "step_below_min3 step PosInfinity = (step < 3)"
| "step_below_min3 step NegInfinity = False"
| "step_below_min3 step NaN = False"

record daily_menu_info =
  visible :: bool
  totalItems :: nat
  visibleItems :: nat
  sampleText :: "jsstring option"
  stepNumber :: nat

text \<open>The function of lines 243 to 315, run in the page at each step.\<close>

definition dailyMenuInfo_in_page :: "nat \<Rightarrow> document \<Rightarrow> int \<Rightarrow> int \<Rightarrow> daily_menu_info" where
  "dailyMenuInfo_in_page currentStep doc y h =
    (let hidden = \<lparr>visible = False, totalItems = 0, visibleItems = 0, sampleText = None,
                    stepNumber = currentStep\<rparr>
     in case find_section_tracking doc of
          None \<Rightarrow> hidden
        | Some dailyMenuSection \<Rightarrow>
            if 0 \<le> el_top dailyMenuSection - y \<and> el_top dailyMenuSection - y \<le> h
            then \<lparr>visible = True,
                  totalItems = length (el_li dailyMenuSection),
                  visibleItems = length (filter
                     (\<lambda>item. 0 \<le> li_top item - y \<and> li_top item - y \<le> h \<and>
                             includes_str (trim (li_textContent item)) [EURO] \<and>
                             20 < length (trim (li_textContent item)))
                     (el_li dailyMenuSection)),
                  sampleText = Some (substring (el_textContent dailyMenuSection) 0 200),
                  stepNumber = currentStep\<rparr>
            else hidden)"

definition current_document :: "world \<Rightarrow> state \<Rightarrow> document" where
  "current_document w s = document_at w (location s) (scrollY s)"

definition extractItemsFromCurrentViewport :: "world \<Rightarrow> nat \<Rightarrow> menu_item list io" where
  "extractItemsFromCurrentViewport w viewportNumber =
    evaluate w (Eval_viewportItems viewportNumber)
      (\<lambda>s. viewport_extract viewportNumber (current_document w s) (scrollY s) (innerHeight w))"

fun decimal :: "nat \<Rightarrow> jsstring" where
  "decimal n = (if n < 10 then [48 + int n] else decimal (n div 10) @ [48 + int (n mod 10)])"

declare decimal.simps [simp del]

text \<open>The best viewport is replaced only by one with strictly more visible items.\<close>

definition remember_best :: "daily_menu_info \<Rightarrow> int \<Rightarrow> nat \<Rightarrow> unit io" where
  "remember_best info y step =
    (if visible info
     then io_modify (\<lambda>s.
            if (case bestDailyMenuViewport s of
                  None \<Rightarrow> True
                | Some best \<Rightarrow> bv_visibleItems best < visibleItems info)
            then s\<lparr>bestDailyMenuViewport :=
                     Some \<lparr>bv_visible = visible info, bv_totalItems = totalItems info,
                           bv_visibleItems = visibleItems info, bv_sampleText = sampleText info,
                           bv_scrollY = y, bv_stepNumber = step + 1\<rparr>\<rparr>
            else s)
     else io_return ())"

text \<open>The body of the \<open>for\<close> loop (lines 222 to 350).\<close>

definition sample_step ::
  "world \<Rightarrow> site \<Rightarrow> jsstring \<Rightarrow> int \<Rightarrow> nat \<Rightarrow> jsstring list \<times> menu_item list
     \<Rightarrow> (jsstring list \<times> menu_item list) io" where
  "sample_step w st timestamp viewportHeight step acc =
    io_then (scrollTo w (int step * viewportHeight))
   (io_then (page_call w (WaitForTimeout 2000))
   (io_bind (io_get (\<lambda>s. path_join w (screenshotDir s)
               (site_name st @ ascii ''-'' @ timestamp @ ascii ''-step'' @ decimal (step + 1) @
                ascii ''.png''))) (\<lambda>stepScreenshotPath.
    io_then (page_call w (Screenshot stepScreenshotPath False))
   (io_bind (evaluate w (Eval_dailyMenuInfo (step + 1))
               (\<lambda>s. dailyMenuInfo_in_page (step + 1) (current_document w s) (scrollY s)
                       (innerHeight w))) (\<lambda>dailyMenuInfo.
    io_then (remember_best dailyMenuInfo (int step * viewportHeight) step)
   (io_bind (extractItemsFromCurrentViewport w (step + 1)) (\<lambda>viewportItems.
    io_return (fst acc @ [stepScreenshotPath],
               if viewportItems \<noteq> [] then snd acc @ viewportItems else snd acc))))))))"

function sample_steps ::
  "world \<Rightarrow> site \<Rightarrow> jsstring \<Rightarrow> int \<Rightarrow> jsnum \<Rightarrow> nat \<Rightarrow> jsstring list \<times> menu_item list
     \<Rightarrow> (jsstring list \<times> menu_item list) io" where
  "sample_steps w st timestamp viewportHeight scrollSteps step acc =
    (if step_below_min3 step scrollSteps
     then io_bind (sample_step w st timestamp viewportHeight step acc)
            (\<lambda>acc'. sample_steps w st timestamp viewportHeight scrollSteps (Suc step) acc')
     else io_return acc)"
  by pat_completeness auto
termination
proof (relation "measure (\<lambda>(w, st, timestamp, viewportHeight, scrollSteps, step, acc). 3 - step)")
  show "wf (measure (\<lambda>(w, st, timestamp, viewportHeight, scrollSteps, step, acc). 3 - step))"
    by simp
next
  fix w :: world and st :: site and timestamp :: jsstring and viewportHeight :: int
    and scrollSteps :: jsnum and step :: nat and acc acc' :: "jsstring list \<times> menu_item list"
  assume "step_below_min3 step scrollSteps"
  then have "step < 3" by (cases scrollSteps) auto
  then show "((w, st, timestamp, viewportHeight, scrollSteps, Suc step, acc'),
              (w, st, timestamp, viewportHeight, scrollSteps, step, acc))
             \<in> measure (\<lambda>(w, st, timestamp, viewportHeight, scrollSteps, step, acc). 3 - step)"
    by simp
qed

declare sample_steps.simps [simp del]

text \<open>The block of lines 203 to 355.\<close>

definition progressive_screenshots ::
  "world \<Rightarrow> site \<Rightarrow> jsstring \<Rightarrow> (jsstring list \<times> menu_item list) io" where
  "progressive_screenshots w st timestamp =
    io_bind (evaluate w Eval_innerHeight (\<lambda>s. innerHeight w)) (\<lambda>viewportHeight.
    io_bind (evaluate w Eval_scrollHeight (\<lambda>s. scrollHeight w (location s))) (\<lambda>totalHeight.
    io_then (scrollTo w 0)
   (io_then (page_call w (WaitForTimeout 2000))
   (io_bind (sample_steps w st timestamp viewportHeight
               (scrollSteps_of totalHeight viewportHeight) 0 ([], [])) (\<lambda>acc.
    io_then (scrollTo w 0)
   (io_then (page_call w (WaitForTimeout 2000))
   (io_return acc)))))))"

section \<open>Aggregator\<close>

definition placeholder_item :: "jsstring \<Rightarrow> menu_item" where
  "placeholder_item screenshotPath =
    \<lparr>name = ascii ''Screenshot Analysis Required'', price = ascii ''N/A'',
     category = ascii ''Manual Review'',
     description = ascii ''Screenshot saved at '' @ screenshotPath @
                   ascii '' - requires manual or AI analysis'',
     screenshot = True, source = None, viewport = None\<rparr>"

definition extractMenuFromScreenshot ::
  "world \<Rightarrow> jsstring \<Rightarrow> site \<Rightarrow> best_viewport option \<Rightarrow> menu_item list io" where
  "extractMenuFromScreenshot w screenshotPath st bestViewport =
    io_catch
      (io_then
        (case bestViewport of
           None \<Rightarrow> io_return ()
         | Some best \<Rightarrow>
             if site_name st = ascii ''Central Pub''
             then io_then (scrollTo w (bv_scrollY best)) (page_call w (WaitForTimeout 2000))
             else io_return ())
      (io_bind
        (evaluate w Eval_fallbackItems
          (\<lambda>s. fallback_extract
                  (case bestViewport of None \<Rightarrow> Unknown | Some best \<Rightarrow> Step (bv_stepNumber best))
                  (current_document w s) (scrollY s) (innerHeight w))) (\<lambda>items.
       io_then (page_call w Eval_consoleLogs)
      (io_return items))))
      (\<lambda>error. io_return [placeholder_item screenshotPath])"

record site_data =
  success :: bool
  restaurant :: jsstring
  url :: "jsstring option"
  scrapedAt :: "jsstring option"
  screenshotPath :: "jsstring option"
  menuData :: "menu_item list option"
  itemCount :: "nat option"
  error :: "jsstring option"

text \<open>\<open>new Date().toISOString().replace(/:/g, "-").split(".")[0]\<close>\<close>

definition timestamp_of :: "jsstring \<Rightarrow> jsstring" where
  "timestamp_of isoString =
     takeWhile (\<lambda>c. c \<noteq> 46) (replace_all (lit (ascii '':'')) (ascii ''-'') isoString)"

definition now :: "world \<Rightarrow> jsstring io" where
  "now w = io_get (\<lambda>s. clock w (length (calls s)))"

text \<open>
  The \<open>try\<close> block of \<open>scrapeRestaurant\<close> (lines 68 to 390), in two parts: what follows
  the first navigation (lines 77 to 390), and the block as a whole.
\<close>

definition after_navigation :: "world \<Rightarrow> site \<Rightarrow> site_data io" where
  "after_navigation w st =
    io_bind (handleCloudflareProtection w) (\<lambda>isCloudflareProtected.
    io_then (if isCloudflareProtected
             then io_then (page_call w (WaitForTimeout 15000))
                    (io_catch (goto w (site_url st) 30000) (\<lambda>error. io_return ()))
             else io_return ())
   (io_then (handle_cookies w)
   (io_then (run_customScript w st)
   (io_then (wait_for_selector w st)
   (io_then (scroll_to_load w)
   (io_bind (now w) (\<lambda>isoString.
    io_bind (progressive_screenshots w st (timestamp_of isoString)) (\<lambda>acc.
    io_bind (io_get (\<lambda>s. path_join w (screenshotDir s)
               (site_name st @ ascii ''-'' @ timestamp_of isoString @ ascii ''.png''))) (\<lambda>mainScreenshotPath.
    io_then (page_call w (Screenshot mainScreenshotPath True))
   (io_bind (if snd acc \<noteq> [] then io_return (snd acc)
             else io_bind (io_get bestDailyMenuViewport)
                    (extractMenuFromScreenshot w mainScreenshotPath st)) (\<lambda>menuData.
    io_bind (now w) (\<lambda>scraped.
    io_return \<lparr>success = True, restaurant = site_name st, url = Some (site_url st),
               scrapedAt = Some scraped, screenshotPath = Some mainScreenshotPath,
               menuData = Some menuData, itemCount = Some (length menuData),
               error = None\<rparr>))))))))))))"

definition scrapeRestaurant_try :: "world \<Rightarrow> site \<Rightarrow> site_data io" where
  "scrapeRestaurant_try w st =
    io_then (io_modify (\<lambda>s. s\<lparr>bestDailyMenuViewport := None\<rparr>))
   (io_bind (io_get timeout) (\<lambda>t.
    io_then (goto w (site_url st) (case t of None \<Rightarrow> 60000 | Some ms \<Rightarrow> if ms = 0 then 60000 else ms))
   (after_navigation w st)))"

definition scrapeRestaurant :: "world \<Rightarrow> site \<Rightarrow> site_data io" where
  "scrapeRestaurant w st =
    io_catch (scrapeRestaurant_try w st)
      (\<lambda>message. io_return \<lparr>success = False, restaurant = site_name st, url = None,
                   scrapedAt = None, screenshotPath = None, menuData = None,
                   itemCount = None, error = Some message\<rparr>)"

text \<open>
  One entry of the array \<open>scrapeAllSites\<close> returns. A property that is \<open>undefined\<close> or was
  never set is \<open>None\<close>: \<open>r_items\<close> is \<open>menuData.items\<close>.
\<close>

record site_result =
  r_name :: jsstring
  r_url :: jsstring
  r_success :: bool
  r_scrapedAt :: "jsstring option"
  r_itemCount :: "nat option"
  r_items :: "menu_item list option"
  r_totalCount :: "nat option"
  r_screenshotPath :: "jsstring option"
  r_error :: "jsstring option"

text \<open>The body of the loop over the sites (lines 921 to 960).\<close>

definition scrape_site :: "world \<Rightarrow> site \<Rightarrow> site_result io" where
  "scrape_site w st =
    io_catch
      (io_bind (scrapeRestaurant w st) (\<lambda>siteData.
       io_return \<lparr>r_name = site_name st, r_url = site_url st, r_success = success siteData,
                  r_scrapedAt = scrapedAt siteData, r_itemCount = itemCount siteData,
                  r_items = menuData siteData, r_totalCount = itemCount siteData,
                  r_screenshotPath = screenshotPath siteData,
                  r_error = (if \<not> success siteData then error siteData else None)\<rparr>))
      (\<lambda>message.
       io_bind (now w) (\<lambda>scraped.
       io_return \<lparr>r_name = site_name st, r_url = site_url st, r_success = False,
                  r_scrapedAt = Some scraped, r_itemCount = Some 0, r_items = Some [],
                  r_totalCount = Some 0, r_screenshotPath = None, r_error = Some message\<rparr>))"

fun scrape_sites :: "world \<Rightarrow> site list \<Rightarrow> site_result list \<Rightarrow> site_result list io" where
  "scrape_sites w [] results = io_return results"
| "scrape_sites w (st # sites) results =
    io_bind (scrape_site w st) (\<lambda>formattedResult.
      scrape_sites w sites (results @ [formattedResult]))"

text \<open>\<open>getEnabledSites\<close> of the configuration keeps the sites with \<open>enabled\<close> set.\<close>

definition scrapeAllSites :: "world \<Rightarrow> site list \<Rightarrow> site_result list io" where
  "scrapeAllSites w configured =
    (let sites = filter enabled configured
     in if sites = [] then io_return [] else scrape_sites w sites [])"

section \<open>The language of a regular expression\<close>

text \<open>
  What the matcher is measured against: the set of strings a regular expression stands
  for, anchors and captures aside. \<open>slice s i j\<close> is the part of \<open>s\<close> from index \<open>i\<close> up
  to index \<open>j\<close>.
\<close>

inductive_set kleene :: "jsstring set \<Rightarrow> jsstring set" for A :: "jsstring set" where
  kleene_nil: "[] \<in> kleene A"
| kleene_step: "u \<in> A \<Longrightarrow> v \<in> kleene A \<Longrightarrow> u @ v \<in> kleene A"

primrec lang :: "rx \<Rightarrow> jsstring set" where
  "lang Eps = {[]}"
| "lang (Chr p) = {[c] | c. p c}"
| "lang (Seq a b) = {u @ v | u v. u \<in> lang a \<and> v \<in> lang b}"
| "lang (Alt a b) = lang a \<union> lang b"
| "lang (Opt a) = insert [] (lang a)"
| "lang (Star a) = kleene (lang a)"
| "lang (Grp k a) = lang a"
| "lang Bol = {[]}"
| "lang Eol = {[]}"

primrec anchor_free :: "rx \<Rightarrow> bool" where
  "anchor_free Eps = True"
| "anchor_free (Chr p) = True"
| "anchor_free (Seq a b) = (anchor_free a \<and> anchor_free b)"
| "anchor_free (Alt a b) = (anchor_free a \<and> anchor_free b)"
| "anchor_free (Opt a) = anchor_free a"
| "anchor_free (Star a) = anchor_free a"
| "anchor_free (Grp k a) = anchor_free a"
| "anchor_free Bol = False"
| "anchor_free Eol = False"

primrec groups :: "rx \<Rightarrow> nat set" where
  "groups Eps = {}"
| "groups (Chr p) = {}"
| "groups (Seq a b) = groups a \<union> groups b"
| "groups (Alt a b) = groups a \<union> groups b"
| "groups (Opt a) = groups a"
| "groups (Star a) = groups a"
| "groups (Grp k a) = insert k (groups a)"
| "groups Bol = {}"
| "groups Eol = {}"

definition slice :: "jsstring \<Rightarrow> nat \<Rightarrow> nat \<Rightarrow> jsstring" where
  "slice s i j = take (j - i) (drop i s)"

text \<open>
  What the lemmas on \<open>star_run\<close> ask of the matcher of the repeated expression: that its
  matches lie in a given language, that it leaves capture \<open>k\<close> alone, and that it finds
  every match of the language.
\<close>

definition sound_step :: "jsstring \<Rightarrow> jsstring set \<Rightarrow> (rx_state \<Rightarrow> rx_state list) \<Rightarrow> bool" where
  "sound_step s A f \<longleftrightarrow> (\<forall>st st'. st' \<in> set (f st) \<and> snd st \<le> length s \<longrightarrow>
      snd st \<le> snd st' \<and> snd st' \<le> length s \<and> slice s (snd st) (snd st') \<in> A)"

definition frame_step :: "nat \<Rightarrow> (rx_state \<Rightarrow> rx_state list) \<Rightarrow> bool" where
  "frame_step k f \<longleftrightarrow> (\<forall>st st'. st' \<in> set (f st) \<longrightarrow> fst st' k = fst st k)"

definition complete_step :: "jsstring \<Rightarrow> jsstring set \<Rightarrow> (rx_state \<Rightarrow> rx_state list) \<Rightarrow> bool" where
  "complete_step s A f \<longleftrightarrow> (\<forall>st j. snd st \<le> j \<and> j \<le> length s \<and> slice s (snd st) j \<in> A \<longrightarrow>
      (\<exists>c'. (c', j) \<in> set (f st)))"

section \<open>The money pattern\<close>

text \<open>
  The pattern of the specification for a price, \<open>^(od )?\d+,\d{2} \<euro>$\<close>, and the one
  the prices of the parser do match, \<open>^(od )?\d+,\d+ \<euro>$\<close>.
\<close>

definition price_format :: rx where
  "price_format =
    seqs [Bol,
          seqs [Opt (Grp 1 (lit (ascii ''od ''))), rx_digits, Chr (\<lambda>c. c = 44), Chr is_digit,
                Chr is_digit, lit (ascii '' ''), Chr (\<lambda>c. c = EURO)],
          Eol]"

definition price_format_amended :: rx where
  "price_format_amended =
    seqs [Bol,
          seqs [Opt (Grp 1 (lit (ascii ''od ''))), rx_digits, Chr (\<lambda>c. c = 44), rx_digits,
                lit (ascii '' ''), Chr (\<lambda>c. c = EURO)],
          Eol]"

section \<open>Traces and invariants of a run\<close>

text \<open>
  The calls of one sampling step, and the number of steps the loop condition allows for a
  value of \<open>scrollSteps\<close>.
\<close>

definition step_calls :: "world \<Rightarrow> jsstring \<Rightarrow> site \<Rightarrow> jsstring \<Rightarrow> nat \<Rightarrow> int \<Rightarrow> nat \<Rightarrow> call list" where
  "step_calls w dir st timestamp p viewportHeight i =
    [OnPage p (Eval_scrollTo (int i * viewportHeight)),
     OnPage p (WaitForTimeout 2000),
     OnPage p (Screenshot (path_join w dir
        (site_name st @ ascii ''-'' @ timestamp @ ascii ''-step'' @ decimal (i + 1) @ ascii ''.png'')) False),
     OnPage p (Eval_dailyMenuInfo (i + 1)),
     OnPage p (Eval_viewportItems (i + 1))]"

fun steps_bound :: "jsnum \<Rightarrow> nat" where
  "steps_bound (Finite n) = nat (min n 3)"
| "steps_bound PosInfinity = 3"
| "steps_bound NegInfinity = 0"
| "steps_bound NaN = 0"

text \<open>
  \<open>keeps J m\<close>: the method \<open>m\<close> leaves a state satisfying \<open>J\<close> in one, whether it returns
  or throws. \<open>in_session p n\<close>: the scraper holds page \<open>p\<close>, and every call after the first
  \<open>n\<close> is a call on page \<open>p\<close> other than closing it.
\<close>

definition keeps :: "(state \<Rightarrow> bool) \<Rightarrow> 'a io \<Rightarrow> bool" where
  "keeps J m \<longleftrightarrow> (\<forall>s. J s \<longrightarrow> J (snd (m s)))"

definition session_call :: "nat \<Rightarrow> call \<Rightarrow> bool" where
  "session_call p c = (case c of OnPage q op \<Rightarrow> q = p \<and> op \<noteq> Close_page | _ \<Rightarrow> False)"

definition in_session :: "nat \<Rightarrow> nat \<Rightarrow> state \<Rightarrow> bool" where
  "in_session p n s \<longleftrightarrow>
     page s = Some p \<and> n \<le> length (calls s) \<and> list_all (session_call p) (drop n (calls s))"

text \<open>
  The offset the browser settles on for a requested one, and the offsets of the sampled
  steps. \<open>runs J m Q\<close>: from a state satisfying \<open>J\<close> the method \<open>m\<close> returns, a value
  satisfying \<open>Q\<close>, and leaves a state satisfying \<open>J\<close>. \<open>at_site w p u\<close>: page \<open>p\<close> shows
  the address \<open>u\<close> at the top or at a sampled offset, and so would the best viewport.
\<close>

definition clamp_scroll :: "world \<Rightarrow> jsstring \<Rightarrow> int \<Rightarrow> int" where
  "clamp_scroll w u y = max 0 (min y (scrollHeight w u - innerHeight w))"

definition sampled_offsets :: "world \<Rightarrow> jsstring \<Rightarrow> int list" where
  "sampled_offsets w u =
     map (\<lambda>i. clamp_scroll w u (int i * innerHeight w))
       [0..<steps_bound (scrollSteps_of (scrollHeight w u) (innerHeight w))]"

definition runs :: "(state \<Rightarrow> bool) \<Rightarrow> 'a io \<Rightarrow> ('a \<Rightarrow> bool) \<Rightarrow> bool" where
  "runs J m Q \<longleftrightarrow> (\<forall>s. J s \<longrightarrow> (\<exists>x s'. m s = (Inr x, s') \<and> J s' \<and> Q x))"

definition at_site :: "world \<Rightarrow> nat \<Rightarrow> jsstring \<Rightarrow> state \<Rightarrow> bool" where
  "at_site w p u s \<longleftrightarrow>
     page s = Some p \<and> location s = u \<and> scrollY s \<in> set (0 # sampled_offsets w u) \<and>
     (case bestDailyMenuViewport s of
        None \<Rightarrow> True
      | Some best \<Rightarrow> clamp_scroll w u (bv_scrollY best) \<in> set (0 # sampled_offsets w u))"

definition is_goto :: "call \<Rightarrow> bool" where
  "is_goto c = (case c of OnPage p (Goto u ms) \<Rightarrow> True | _ \<Rightarrow> False)"

text \<open>
  What a theorem may ask of the script of a site; a site with no script, or with the empty
  one, satisfies both. \<open>script_keeps_session w p st\<close>: the script leaves a scraper that
  holds page \<open>p\<close> in the session of that page, that is, it does not assign \<open>this.page\<close>,
  and the calls it makes are calls on page \<open>p\<close> that do not close it.
  \<open>script_leaves_page w st\<close>: the script leaves
  \<open>this.page\<close>, the address and scroll offset of the page and
  \<open>this.bestDailyMenuViewport\<close> as they were, whatever else it does and whether it returns
  or throws.
\<close>

definition script_keeps_session :: "world \<Rightarrow> nat \<Rightarrow> site \<Rightarrow> bool" where
  "script_keeps_session w p st =
     (case customScript st of
        None \<Rightarrow> True
      | Some script \<Rightarrow> script = [] \<or> (\<forall>n. keeps (in_session p n) (eval_script w st)))"

definition same_page :: "state \<Rightarrow> state \<Rightarrow> bool" where
  "same_page s s' \<longleftrightarrow>
     page s' = page s \<and> location s' = location s \<and> scrollY s' = scrollY s \<and>
     bestDailyMenuViewport s' = bestDailyMenuViewport s"

definition script_leaves_page :: "world \<Rightarrow> site \<Rightarrow> bool" where
  "script_leaves_page w st =
     (case customScript st of
        None \<Rightarrow> True
      | Some script \<Rightarrow> script = [] \<or> (\<forall>s. same_page s (snd (eval_script w st s))))"

text \<open>
  \<open>steady p J\<close>: the invariant \<open>J\<close> speaks of page \<open>p\<close> and of nothing but the page, its
  address, its scroll offset and the best viewport, and holds at the top of the page when it
  holds further down. \<open>yields P m Q\<close>: from a state satisfying \<open>P\<close> the method \<open>m\<close>
  returns, a value and a state satisfying \<open>Q\<close>.
\<close>

definition steady :: "nat \<Rightarrow> (state \<Rightarrow> bool) \<Rightarrow> bool" where
  "steady p J \<longleftrightarrow>
     (\<forall>s. J s \<longrightarrow> page s = Some p \<and> J (s\<lparr>scrollY := 0\<rparr>)) \<and>
     (\<forall>s s'. J s \<longrightarrow> same_page s s' \<longrightarrow> J s')"

definition yields :: "(state \<Rightarrow> bool) \<Rightarrow> 'a io \<Rightarrow> ('a \<Rightarrow> state \<Rightarrow> bool) \<Rightarrow> bool" where
  "yields P m Q \<longleftrightarrow> (\<forall>s. P s \<longrightarrow> (\<exists>x s'. m s = (Inr x, s') \<and> Q x s'))"

text \<open>
  What step \<open>i\<close> (from 0) of the sampler sees of the address \<open>u\<close> when no call throws: the
  page has settled on the offset \<open>clamp_scroll w u (i * innerHeight)\<close>; \<open>step_info\<close> is
  what the tracking function reports there and \<open>step_items\<close> what the step extraction
  returns there. \<open>best_after w u k\<close> is the best viewport in the words of the
  specification: of the first \<open>k\<close> steps, the first one among those whose section is on
  screen with the most visible list items, recorded with the offset \<open>i * innerHeight\<close> the
  step asked for. \<open>sampled w p u k\<close>: page \<open>p\<close> shows \<open>u\<close> and the scraper holds the best
  viewport of the first \<open>k\<close> steps.
\<close>

definition step_info :: "world \<Rightarrow> jsstring \<Rightarrow> nat \<Rightarrow> daily_menu_info" where
  "step_info w u i =
     dailyMenuInfo_in_page (Suc i)
       (document_at w u (clamp_scroll w u (int i * innerHeight w)))
       (clamp_scroll w u (int i * innerHeight w)) (innerHeight w)"


primrec best_after :: "world \<Rightarrow> jsstring \<Rightarrow> nat \<Rightarrow> best_viewport option" where
  "best_after w u 0 = None"
| "best_after w u (Suc i) =
     (if visible (step_info w u i) \<and>
         (case best_after w u i of
            None \<Rightarrow> True
          | Some best \<Rightarrow> bv_visibleItems best < visibleItems (step_info w u i))
      then Some \<lparr>bv_visible = True, bv_totalItems = totalItems (step_info w u i),
                 bv_visibleItems = visibleItems (step_info w u i),
                 bv_sampleText = sampleText (step_info w u i),
                 bv_scrollY = int i * innerHeight w, bv_stepNumber = Suc i\<rparr>
      else best_after w u i)"



section \<open>The candidates of the parser\<close>

text \<open>
  The cleaned name of a list item, as the parser computes it from the text of the item
  (lines 469, 484, 487 to 502 and their copies in the fallback pass): the text is trimmed,
  its white space is collapsed, it is cut at the first price and the cut is cleaned.
  \<open>None\<close> when the collapsed text has no price to cut at.
\<close>

definition cleaned_name :: "jsstring \<Rightarrow> jsstring option" where
  "cleaned_name textContent =
    (let itemText = trim textContent;
         cleanText = trim (replace_all (Plus (Chr is_space)) (ascii '' '') itemText)
     in case rx_exec price_re cleanText of
          None \<Rightarrow> None
        | Some priceMatch \<Rightarrow>
            Some (item_name cleanText (indexOf cleanText (m_text priceMatch))))"

text \<open>The validity test of the specification for a name.\<close>

definition valid_name :: "jsstring \<Rightarrow> bool" where
  "valid_name n \<longleftrightarrow> 3 < length n \<and> \<not> includes_str n [EURO]"

section \<open>Inputs of the scenarios\<close>

text \<open>A page that is one section with the given text and list items, all on screen.\<close>

definition menu_section :: "jsstring \<Rightarrow> jsstring list \<Rightarrow> element" where
  "menu_section heading items =
    \<lparr>el_tag = SECTION, el_role_region = False, el_textContent = heading, el_top = 50,
     el_li = map (\<lambda>t. \<lparr>li_textContent = t, li_top = 100, li_height = 20\<rparr>) items\<rparr>"

definition scenario_A :: jsstring where
  "scenario_A = ascii ''Soup 1: Goulash 3,50 '' @ [EURO] @ ascii '' with bread''"

definition scenario_A_polievka :: jsstring where
  "scenario_A_polievka = ascii ''Polievka 1: Goulash 3,50 '' @ [EURO] @ ascii '' with bread''"

definition scenario_B :: jsstring where
  "scenario_B = ascii ''Schnitzel od 5,20 '' @ [EURO]"

definition scenario_D :: jsstring where
  "scenario_D = ascii ''Ob'' @ [l_caron, u_acute] @ ascii ''ben'' @ [e_acute] @ ascii '' Denn'' @
                [e_acute] @ ascii '' menu Monday''"

definition favorites_monday :: jsstring where
  "favorites_monday = ascii ''Favorites Daily menu Monday''"

definition one_decimal :: jsstring where
  "one_decimal = ascii ''Goulash soup 3,5 '' @ [EURO]"

definition denne_menu_utorok :: jsstring where
  "denne_menu_utorok = denne_menu @ ascii '' utorok''"

text \<open>
  Worlds, states and sites for the runs: a window of 1024 pixels on a document of 3500, where
  the script of a site makes one click on the page; the scraper before and after
  \<open>initialize\<close>; a world whose sixth call (the first navigation after \<open>initialize\<close>)
  times out, one whose page has no menu, and one whose menu section lies below the first
  viewport with one short list item.
\<close>

definition iso_time :: jsstring where
  "iso_time = ascii ''2024-05-06T10:11:12.000Z''"

definition plain_world :: "(nat \<Rightarrow> jsstring option) \<Rightarrow> (jsstring \<Rightarrow> int \<Rightarrow> document) \<Rightarrow> world" where
  "plain_world failing doc =
    \<lparr>throws = failing, innerHeight = 1024, scrollHeight = (\<lambda>_. 3500), title = (\<lambda>_. []),
     bodyText = (\<lambda>_. []), document_at = doc, selector_visible = (\<lambda>_ _. False),
     dialogButtons = (\<lambda>_. 0), clock = (\<lambda>_. iso_time),
     path_join = (\<lambda>dir file. dir @ ascii ''/'' @ file),
     eval_script = (\<lambda>st s.
       case page s of
         None \<Rightarrow> (Inl (ascii ''Cannot read properties of null''), s)
       | Some p \<Rightarrow> (Inr (), s\<lparr>calls := calls s @ [OnPage p Click_dialogButton]\<rparr>))\<rparr>"

definition fresh :: state where
  "fresh = \<lparr>page = None, browser = False, timeout = None, screenshotDir = ascii ''./screenshots'',
            bestDailyMenuViewport = None, location = [], scrollY = 0, calls = [], next_page = 0\<rparr>"

definition ready :: state where
  "ready = \<lparr>page = Some 0, browser = True, timeout = None, screenshotDir = ascii ''./screenshots'',
            bestDailyMenuViewport = None, location = [], scrollY = 0,
            calls = [EnsureDir, Launch, NewContext, NewPage 0, OnPage 0 AddInitScript],
            next_page = 1\<rparr>"

definition named_site :: "jsstring \<Rightarrow> jsstring \<Rightarrow> site" where
  "named_site n u = \<lparr>site_name = n, site_url = u, enabled = True, customScript = None,
                     waitForSelector = None\<rparr>"

definition site_A :: site where "site_A = named_site (ascii ''A'') (ascii ''http://a'')"
definition site_B :: site where "site_B = named_site (ascii ''B'') (ascii ''http://b'')"

definition timeout_world :: world where
  "timeout_world =
     plain_world (\<lambda>n. if n = 5 then Some (ascii ''NavigationTimeout'') else None) (\<lambda>u y. [])"

definition welcome_div :: element where
  "welcome_div = \<lparr>el_tag = DIV, el_role_region = False, el_textContent = ascii ''Welcome to our restaurant'',
                  el_top = 0, el_li = []\<rparr>"

definition quiet_world :: world where
  "quiet_world = plain_world (\<lambda>n. None) (\<lambda>u y. [welcome_div])"



text \<open>
  A site with a script, and a world where the script opens a page and puts it in
  \<open>this.page\<close>, as \<open>this.page = await this.browser.newPage()\<close> does.
\<close>

definition consent_site :: site where
  "consent_site =
     \<lparr>site_name = ascii ''Consent'', site_url = ascii ''http://s'', enabled = True,
      customScript = Some (ascii ''await this.page.mouse.click(10, 10)''),
      waitForSelector = None\<rparr>"

definition replacing_world :: world where
  "replacing_world =
     (plain_world (\<lambda>n. None) (\<lambda>u y. [welcome_div]))
       \<lparr>eval_script := (\<lambda>st s.
          (Inr (), s\<lparr>page := Some (next_page s), next_page := Suc (next_page s),
                      location := [], scrollY := 0,
                      calls := calls s @ [NewPage (next_page s)]\<rparr>))\<rparr>"

text \<open>
  Two list items whose cleaned name is not valid: \<open>Rum\<close> has three code units, and
  \<open>Menu 5 \<euro> akcia\<close>, cut at the first price with a comma, contains the euro sign.
\<close>

definition rum_shot :: jsstring where
  "rum_shot = ascii ''Rum 2,50 '' @ [EURO] @ ascii '' a shot of dark rum''"

definition euro_in_name :: jsstring where
  "euro_in_name = ascii ''Menu 5 '' @ [EURO] @ ascii '' akcia 4,50 '' @ [EURO] @ ascii '' only today''"

section \<open>Properties of the Section Classifier\<close>

lemma find_Some_sat: "List.find P xs = Some x \<Longrightarrow> P x \<and> x \<in> set xs"
  by (auto simp: find_Some_iff)

lemma map_filter_mem: "x \<in> set (List.map_filter f xs) \<Longrightarrow> \<exists>a \<in> set xs. f a = Some x"
  by (auto simp: List.map_filter_def)

lemma find_section_tracking_sat:
  "find_section_tracking doc = Some el \<Longrightarrow>
     is_daily_menu dailyMenuPatterns (el_textContent el) \<and> el \<in> set doc"
  unfolding find_section_tracking_def querySelectorAll_def
  by (drule find_Some_sat) simp

lemma find_section_extraction_sat:
  assumes "find_section_extraction patterns doc = Some el"
  shows "is_daily_menu patterns (el_textContent el) \<and> el \<in> set doc"
proof -
  let ?f = "\<lambda>sel. List.find (\<lambda>el. is_daily_menu patterns (el_textContent el))
                     (querySelectorAll [sel] doc)"
  let ?sels = "[Sel_section, Sel_div, Sel_article, Sel_main, Sel_role_region]"
  from assms have "el \<in> set (List.map_filter ?f ?sels)"
    unfolding find_section_extraction_def by (cases "List.map_filter ?f ?sels") auto
  then have "\<exists>sel \<in> set ?sels. ?f sel = Some el"
    by (rule map_filter_mem)
  then obtain sel where "?f sel = Some el"
    by blast
  then show ?thesis
    using find_Some_sat[of _ "querySelectorAll [sel] doc" el] by (auto simp: querySelectorAll_def)
qed

text \<open>
  C5. A section whose lower-cased text contains an exclusion phrase is rejected by the
  callback whatever the inclusion patterns are, so neither the tracking invocation nor an
  extraction invocation of the classifier ever returns it.
\<close>

theorem exclusion_takes_precedence:
  assumes "list_ex (\<lambda>pattern. includes_str (toLowerCase (el_textContent el)) pattern) excludePatterns"
  shows "\<not> is_daily_menu patterns (el_textContent el) \<and>
         find_section_tracking doc \<noteq> Some el \<and>
         find_section_extraction patterns doc \<noteq> Some el"
proof -
  have rejected: "\<not> is_daily_menu ps (el_textContent el)" for ps
    using assms by (simp add: is_daily_menu_def Let_def)
  show ?thesis
    using rejected find_section_tracking_sat[of doc el] find_section_extraction_sat[of patterns doc el]
    by blast
qed

text \<open>
  The section of Scenario D, and one whose text matches the second inclusion pattern
  (\<open>daily menu monday\<close>) next to the exclusion phrase \<open>favorites\<close>.
\<close>

theorem exclusion_takes_precedence_witness:
  "list_ex (\<lambda>pattern. includes_str (toLowerCase scenario_D) pattern) excludePatterns \<and>
   \<not> is_daily_menu dailyMenuPatterns scenario_D \<and>
   find_section_tracking [menu_section scenario_D []] = None \<and>
   list_ex (\<lambda>pattern. rx_test pattern (toLowerCase favorites_monday)) dailyMenuPatterns \<and>
   \<not> is_daily_menu dailyMenuPatterns favorites_monday"
proof -
  have d: "list_ex (\<lambda>pattern. includes_str (toLowerCase (el_textContent (menu_section scenario_D [])))
             pattern) excludePatterns"
    by code_simp
  have f: "list_ex (\<lambda>pattern. includes_str (toLowerCase (el_textContent (menu_section favorites_monday [])))
             pattern) excludePatterns"
    by code_simp
  have incl: "list_ex (\<lambda>pattern. rx_test pattern (toLowerCase favorites_monday)) dailyMenuPatterns"
    by code_simp
  have none: "find_section_tracking [menu_section scenario_D []] = None"
  proof (cases "find_section_tracking [menu_section scenario_D []]")
    case (Some el)
    then have "el = menu_section scenario_D []"
      using find_section_tracking_sat[of "[menu_section scenario_D []]" el] by simp
    then show ?thesis
      using Some exclusion_takes_precedence[OF d, of dailyMenuPatterns "[menu_section scenario_D []]"]
      by simp
  qed simp
  show ?thesis
    using d f incl none
      exclusion_takes_precedence[OF d, of dailyMenuPatterns "[]"]
      exclusion_takes_precedence[OF f, of dailyMenuPatterns "[]"]
    by (simp add: menu_section_def)
qed

text \<open>
  C9. The two invocations of the classifier do not accept the same texts: the pattern list
  of \<open>extractItemsFromCurrentViewport\<close> spells the weekday \<open>utorak\<close> where the other two
  copies have \<open>utorok\<close>. A section reading \<open>denne menu utorok\<close> (with e acute) is found by
  the best-viewport tracking and by the fallback pass, and missed by the step extraction.
\<close>

theorem classifier_copies_disagree_on_utorok:
  "is_daily_menu dailyMenuPatterns denne_menu_utorok = True \<and>
   is_daily_menu dailyMenuPatterns_viewport denne_menu_utorok = False \<and>
   find_section_tracking [menu_section denne_menu_utorok []] =
     Some (menu_section denne_menu_utorok []) \<and>
   find_section_extraction dailyMenuPatterns [menu_section denne_menu_utorok []] =
     Some (menu_section denne_menu_utorok []) \<and>
   find_section_extraction dailyMenuPatterns_viewport [menu_section denne_menu_utorok []] = None"
  by code_simp

section \<open>The matcher and the language\<close>

text \<open>
  Every match the matcher lists lies in the language of the expression, a capture outside
  the expression is left as it was, and an expression without anchors matches every slice
  that is in its language.
\<close>

lemma slice_append: "i \<le> k \<Longrightarrow> k \<le> j \<Longrightarrow> j \<le> length s \<Longrightarrow> slice s i k @ slice s k j = slice s i j"
proof -
  assume a: "i \<le> k" "k \<le> j" "j \<le> length s"
  have "slice s i j = take (k - i + (j - k)) (drop i s)" using a by (simp add: slice_def)
  also have "\<dots> = take (k - i) (drop i s) @ take (j - k) (drop (k - i) (drop i s))"
    by (rule take_add)
  also have "drop (k - i) (drop i s) = drop k s" using a by simp
  finally show ?thesis by (simp add: slice_def)
qed

lemma slice_self: "slice s i i = []" by (simp add: slice_def)

lemma slice_Suc: "i < length s \<Longrightarrow> slice s i (Suc i) = [s ! i]"
  by (simp add: slice_def take_Suc_conv_app_nth[of 0 "drop i s", simplified] )

lemma star_run_sound:
  assumes f: "sound_step s A f"
  shows "st' \<in> set (star_run n f st) \<Longrightarrow> snd st \<le> length s \<Longrightarrow>
     snd st \<le> snd st' \<and> snd st' \<le> length s \<and> slice s (snd st) (snd st') \<in> kleene A"
proof (induction n arbitrary: st)
  case 0
  then show ?case by (simp add: slice_self kleene_nil)
next
  case (Suc n)
  from Suc.prems(1) consider (stop) "st' = st"
    | (more) st1 where "st1 \<in> set (f st)" "snd st < snd st1" "st' \<in> set (star_run n f st1)"
    by (auto split: if_splits)
  then show ?case
  proof cases
    case stop
    then show ?thesis using Suc.prems by (simp add: slice_self kleene_nil)
  next
    case more
    from f more(1) Suc.prems(2) have 1: "snd st \<le> snd st1" "snd st1 \<le> length s"
      "slice s (snd st) (snd st1) \<in> A" unfolding sound_step_def by blast+
    from Suc.IH[OF more(3) 1(2)] have 2: "snd st1 \<le> snd st'" "snd st' \<le> length s"
      "slice s (snd st1) (snd st') \<in> kleene A" by blast+
    have "slice s (snd st) (snd st1) @ slice s (snd st1) (snd st') \<in> kleene A"
      using 1(3) 2(3) by (rule kleene_step)
    then show ?thesis using 1 2 by (simp add: slice_append)
  qed
qed

lemma rx_run_sound:
  "st' \<in> set (rx_run r s st) \<Longrightarrow> snd st \<le> length s \<Longrightarrow>
     snd st \<le> snd st' \<and> snd st' \<le> length s \<and> slice s (snd st) (snd st') \<in> lang r"
proof (induction r arbitrary: st st')
  case Eps
  then show ?case by (simp add: slice_self)
next
  case (Chr p)
  then show ?case by (auto simp: slice_Suc split: if_splits)
next
  case (Seq a b)
  from Seq.prems(1) obtain st1 where 1: "st1 \<in> set (rx_run a s st)" "st' \<in> set (rx_run b s st1)"
    by auto
  from Seq.IH(1)[OF 1(1) Seq.prems(2)] have a: "snd st \<le> snd st1" "snd st1 \<le> length s"
    "slice s (snd st) (snd st1) \<in> lang a" by blast+
  from Seq.IH(2)[OF 1(2) a(2)] have b: "snd st1 \<le> snd st'" "snd st' \<le> length s"
    "slice s (snd st1) (snd st') \<in> lang b" by blast+
  have "slice s (snd st) (snd st') = slice s (snd st) (snd st1) @ slice s (snd st1) (snd st')"
    using a b by (simp add: slice_append)
  then show ?case using a b by auto
next
  case (Alt a b)
  from Alt.prems(1) consider (left) "st' \<in> set (rx_run a s st)" | (right) "st' \<in> set (rx_run b s st)"
    by auto
  then show ?case
  proof cases
    case left
    from Alt.IH(1)[OF left Alt.prems(2)] show ?thesis by simp
  next
    case right
    from Alt.IH(2)[OF right Alt.prems(2)] show ?thesis by simp
  qed
next
  case (Opt a)
  from Opt.prems(1) consider (taken) "st' \<in> set (rx_run a s st)" | (skipped) "st' = st"
    by auto
  then show ?case
  proof cases
    case taken
    from Opt.IH[OF taken Opt.prems(2)] show ?thesis by simp
  next
    case skipped
    then show ?thesis using Opt.prems(2) by (simp add: slice_self)
  qed
next
  case (Star a)
  have "sound_step s (lang a) (rx_run a s)"
    unfolding sound_step_def using Star.IH by blast
  from star_run_sound[OF this] Star.prems show ?case by simp
next
  case (Grp k a)
  from Grp.prems(1) obtain st1 where 1: "st1 \<in> set (rx_run a s st)" "snd st' = snd st1" by auto
  from Grp.IH[OF 1(1) Grp.prems(2)] 1(2) show ?case by simp
next
  case Bol
  then show ?case by (auto simp: slice_self split: if_splits)
next
  case Eol
  then show ?case by (auto simp: slice_self split: if_splits)
qed

lemma star_run_frame:
  assumes f: "frame_step k f"
  shows "st' \<in> set (star_run n f st) \<Longrightarrow> fst st' k = fst st k"
proof (induction n arbitrary: st)
  case 0
  then show ?case by simp
next
  case (Suc n)
  from Suc.prems consider (stop) "st' = st"
    | (more) st1 where "st1 \<in> set (f st)" "st' \<in> set (star_run n f st1)"
    by (auto split: if_splits)
  then show ?case
  proof cases
    case stop
    then show ?thesis by simp
  next
    case more
    from f more(1) have "fst st1 k = fst st k" unfolding frame_step_def by blast
    with Suc.IH[OF more(2)] show ?thesis by simp
  qed
qed

lemma rx_run_frame:
  "st' \<in> set (rx_run r s st) \<Longrightarrow> k \<notin> groups r \<Longrightarrow> fst st' k = fst st k"
proof (induction r arbitrary: st st')
  case (Seq a b)
  from Seq.prems(1) obtain st1 where 1: "st1 \<in> set (rx_run a s st)" "st' \<in> set (rx_run b s st1)"
    by auto
  from Seq.IH(1)[OF 1(1)] Seq.IH(2)[OF 1(2)] Seq.prems(2) show ?case by simp
next
  case (Alt a b)
  from Alt.prems(1) consider (left) "st' \<in> set (rx_run a s st)" | (right) "st' \<in> set (rx_run b s st)"
    by auto
  then show ?case
  proof cases
    case left
    from Alt.IH(1)[OF left] Alt.prems(2) show ?thesis by simp
  next
    case right
    from Alt.IH(2)[OF right] Alt.prems(2) show ?thesis by simp
  qed
next
  case (Opt a)
  from Opt.prems(1) consider (taken) "st' \<in> set (rx_run a s st)" | (skipped) "st' = st"
    by auto
  then show ?case
  proof cases
    case taken
    from Opt.IH[OF taken] Opt.prems(2) show ?thesis by simp
  next
    case skipped
    then show ?thesis by simp
  qed
next
  case (Star a)
  have "frame_step k (rx_run a s)"
    unfolding frame_step_def using Star.IH Star.prems(2) by simp
  from star_run_frame[OF this] Star.prems(1) show ?case by simp
next
  case (Grp g a)
  from Grp.prems(1) obtain st1 where 1: "st1 \<in> set (rx_run a s st)"
    "fst st' = (fst st1)(g \<mapsto> slice s (snd st) (snd st1))" by (auto simp: slice_def)
  from Grp.IH[OF 1(1)] 1(2) Grp.prems(2) show ?case by simp
qed (auto split: if_splits)

lemma length_slice: "j \<le> length s \<Longrightarrow> length (slice s i j) = j - i"
  by (simp add: slice_def)

lemma slice_split:
  assumes "u @ v = slice s i j" "i \<le> j" "j \<le> length s"
  shows "i + length u \<le> j \<and> u = slice s i (i + length u) \<and> v = slice s (i + length u) j"
proof -
  have len: "length u + length v = j - i"
    using assms length_slice[of j s i] by (metis length_append)
  then have k: "i \<le> i + length u" "i + length u \<le> j" using assms by auto
  have "slice s i (i + length u) @ slice s (i + length u) j = u @ v"
    using slice_append[OF k assms(3)] assms(1) by simp
  moreover have "length (slice s i (i + length u)) = length u"
    using k assms by (simp add: length_slice)
  ultimately show ?thesis using k by (simp add: append_eq_append_conv)
qed

lemma star_run_complete:
  assumes f: "complete_step s A f"
  shows "w \<in> kleene A \<Longrightarrow> w = slice s (snd st) j \<Longrightarrow> snd st \<le> j \<Longrightarrow> j \<le> length s \<Longrightarrow>
     j - snd st \<le> n \<Longrightarrow> \<exists>c'. (c', j) \<in> set (star_run n f st)"
proof (induction w arbitrary: st n rule: kleene.induct)
  case kleene_nil
  then have "j = snd st" using length_slice[of j s "snd st"] by simp
  then have "(fst st, j) = st" by simp
  moreover have "st \<in> set (star_run n f st)" by (cases n) simp_all
  ultimately show ?case by metis
next
  case (kleene_step u v)
  show ?case
  proof (cases "u = []")
    case True
    with kleene_step.prems have "v = slice s (snd st) j" by simp
    from kleene_step.IH[OF this kleene_step.prems(2,3,4)] show ?thesis .
  next
    case False
    let ?k = "snd st + length u"
    from slice_split[OF kleene_step.prems(1,2,3)]
    have k: "?k \<le> j" "u = slice s (snd st) ?k" "v = slice s ?k j" by simp_all
    from f kleene_step.hyps(1) k(1,2) kleene_step.prems(3)
    obtain c1 where c1: "(c1, ?k) \<in> set (f st)"
      unfolding complete_step_def by (metis le_add1 le_trans)
    from False have "0 < length u" by simp
    with k(1) kleene_step.prems(4) have "n \<noteq> 0" "j - ?k \<le> n - 1" by arith+
    then obtain m where n: "n = Suc m" "j - ?k \<le> m"
      by (cases n) simp_all
    from kleene_step.IH[of "(c1, ?k)" m] k(1,3) kleene_step.prems(3) n(2)
    obtain c' where "(c', j) \<in> set (star_run m f (c1, ?k))" by auto
    with c1 False have "(c', j) \<in> set (star_run (Suc m) f st)"
      by (auto intro!: bexI[of _ "(c1, ?k)"])
    then show ?thesis using n(1) by blast
  qed
qed

lemma rx_run_complete:
  "anchor_free r \<Longrightarrow> snd st \<le> j \<Longrightarrow> j \<le> length s \<Longrightarrow> slice s (snd st) j \<in> lang r \<Longrightarrow>
     \<exists>c'. (c', j) \<in> set (rx_run r s st)"
proof (induction r arbitrary: st j)
  case Eps
  then have "j = snd st" using length_slice[of j s "snd st"] by simp
  then show ?case by (cases st) simp
next
  case (Chr p)
  from Chr.prems(4) obtain c where c: "slice s (snd st) j = [c]" "p c" by auto
  then have j: "j = Suc (snd st)" using length_slice[of j s "snd st"] Chr.prems by simp
  then have "snd st < length s" using Chr.prems by simp
  moreover from this c j have "p (s ! snd st)" by (simp add: slice_Suc)
  ultimately show ?case using j by simp
next
  case (Seq a b)
  from Seq.prems(4) obtain u v where uv: "u @ v = slice s (snd st) j" "u \<in> lang a" "v \<in> lang b"
    by auto
  let ?k = "snd st + length u"
  from slice_split[OF uv(1) Seq.prems(2,3)]
  have k: "?k \<le> j" "u = slice s (snd st) ?k" "v = slice s ?k j" by simp_all
  from Seq.IH(1)[of st ?k] Seq.prems k uv obtain c1 where c1: "(c1, ?k) \<in> set (rx_run a s st)"
    by auto
  from Seq.IH(2)[of "(c1, ?k)" j] Seq.prems k uv obtain c2 where
    "(c2, j) \<in> set (rx_run b s (c1, ?k))" by auto
  with c1 show ?case by (auto intro!: exI[of _ c2] bexI[of _ "(c1, ?k)"])
next
  case (Alt a b)
  from Alt.prems(4) consider (left) "slice s (snd st) j \<in> lang a" | (right) "slice s (snd st) j \<in> lang b"
    by auto
  then show ?case
  proof cases
    case left
    from Alt.IH(1)[OF _ Alt.prems(2,3) left] Alt.prems(1) show ?thesis by auto
  next
    case right
    from Alt.IH(2)[OF _ Alt.prems(2,3) right] Alt.prems(1) show ?thesis by auto
  qed
next
  case (Opt a)
  from Opt.prems(4) consider (skipped) "slice s (snd st) j = []" | (taken) "slice s (snd st) j \<in> lang a"
    by auto
  then show ?case
  proof cases
    case skipped
    then have "j = snd st" using length_slice[of j s "snd st"] Opt.prems by simp
    then show ?thesis by (cases st) auto
  next
    case taken
    from Opt.IH[OF _ Opt.prems(2,3) taken] Opt.prems(1) show ?thesis by auto
  qed
next
  case (Star a)
  have "complete_step s (lang a) (rx_run a s)"
    unfolding complete_step_def using Star.IH Star.prems(1) by simp
  from star_run_complete[OF this, of "slice s (snd st) j" st j "length s - snd st"] Star.prems
  show ?case by simp
next
  case (Grp g a)
  from Grp.IH[OF _ Grp.prems(2,3)] Grp.prems(1,4) obtain c' where
    "(c', j) \<in> set (rx_run a s st)" by auto
  then show ?case
    by (auto intro!: exI[of _ "c'(g \<mapsto> take (j - snd st) (drop (snd st) s))"] bexI[of _ "(c', j)"]
             simp: image_iff)
next
  case Bol
  then show ?case by simp
next
  case Eol
  then show ?case by simp
qed

lemma lang_seqs_Nil: "lang (seqs []) = {[]}"
  by (simp add: seqs_def)

lemma lang_seqs_Cons: "lang (seqs (r # rs)) = {u @ v | u v. u \<in> lang r \<and> v \<in> lang (seqs rs)}"
  by (simp add: seqs_def)

lemma anchor_free_seqs: "anchor_free (seqs rs) = list_all anchor_free rs"
  by (induction rs) (simp_all add: seqs_def)

lemma lang_lit: "lang (lit w) = {w}"
  by (induction w) (auto simp: lit_def seqs_def)

lemma anchor_free_lit: "anchor_free (lit w)"
  by (induction w) (simp_all add: lit_def seqs_def)

lemma rx_exec_from_Some:
  assumes "rx_exec_from r s from = Some m"
  shows "\<exists>i j. i \<le> length s \<and> (m_groups m, j) \<in> set (rx_run r s (Map.empty, i))"
proof -
  from assms obtain i where i: "List.find (\<lambda>i. rx_run r s (Map.empty, i) \<noteq> []) [from..<Suc (length s)] = Some i"
    by (auto simp: rx_exec_from_def split: option.splits)
  then have ne: "rx_run r s (Map.empty, i) \<noteq> []" and le: "i \<le> length s"
    using find_Some_sat[OF i] by auto
  obtain c j where cj: "hd (rx_run r s (Map.empty, i)) = (c, j)" by (cases "hd (rx_run r s (Map.empty, i))")
  with assms i have "m_groups m = c" by (auto simp: rx_exec_from_def)
  moreover from ne cj have "(c, j) \<in> set (rx_run r s (Map.empty, i))" by (metis hd_in_set)
  ultimately show ?thesis using le by blast
qed

lemma rx_test_start:
  assumes "rx_run r s (Map.empty, 0) \<noteq> []"
  shows "rx_test r s"
proof -
  have "0 \<in> set [0..<Suc (length s)]" by simp
  with assms have "List.find (\<lambda>i. rx_run r s (Map.empty, i) \<noteq> []) [0..<Suc (length s)] \<noteq> None"
    unfolding find_None_iff by blast
  then show ?thesis
    by (auto simp: rx_test_def rx_exec_def rx_exec_from_def split: option.splits prod.splits)
qed

lemma rx_run_SeqE:
  "st' \<in> set (rx_run (Seq a b) s st) \<Longrightarrow> \<exists>st1 \<in> set (rx_run a s st). st' \<in> set (rx_run b s st1)"
  by auto

lemma rx_run_SeqI:
  "st1 \<in> set (rx_run a s st) \<Longrightarrow> st' \<in> set (rx_run b s st1) \<Longrightarrow> st' \<in> set (rx_run (Seq a b) s st)"
  by auto

lemma rx_run_GrpE:
  assumes "st' \<in> set (rx_run (Grp k a) s st)"
  shows "\<exists>st1 \<in> set (rx_run a s st).
           fst st' = (fst st1)(k \<mapsto> slice s (snd st) (snd st1)) \<and> snd st' = snd st1"
proof -
  from assms obtain st1 where 1: "st1 \<in> set (rx_run a s st)"
    "st' = ((fst st1)(k \<mapsto> take (snd st1 - snd st) (drop (snd st) s)), snd st1)"
    by auto
  show ?thesis
    by (rule bexI[OF _ 1(1)]) (simp add: 1(2) slice_def)
qed

lemma lang_seqs_ConsI: "u \<in> lang r \<Longrightarrow> v \<in> lang (seqs rs) \<Longrightarrow> u @ v \<in> lang (seqs (r # rs))"
  unfolding lang_seqs_Cons by blast

lemma anchored_test:
  assumes "anchor_free body" "w \<in> lang body"
  shows "rx_test (seqs [Bol, body, Eol]) w"
proof -
  have "slice w 0 (length w) = w" by (simp add: slice_def)
  with assms rx_run_complete[of body "(Map.empty, 0)" "length w" w]
  obtain c' where "(c', length w) \<in> set (rx_run body w (Map.empty, 0))" by auto
  then have "(c', length w) \<in> set (rx_run (seqs [Bol, body, Eol]) w (Map.empty, 0))"
    by (auto simp: seqs_def intro!: bexI[of _ "(c', length w)"])
  then have "rx_run (seqs [Bol, body, Eol]) w (Map.empty, 0) \<noteq> []"
    by (metis empty_iff empty_set)
  then show ?thesis by (rule rx_test_start)
qed

lemma pricePattern_amount:
  assumes run: "(c, j) \<in> set (rx_run pricePattern s (Map.empty, i))" and i: "i \<le> length s"
  shows "\<exists>g. c 2 = Some g \<and> g \<in> lang (seqs [rx_digits, Chr (\<lambda>c. c = 44), rx_digits])"
proof -
  let ?D = "seqs [rx_digits, Chr (\<lambda>c. c = 44), rx_digits]"
  let ?rest = "Seq rx_spaces (Seq (Chr (\<lambda>c. c = EURO)) Eps)"
  let ?opt = "Opt (Grp 1 (seqs [lit (ascii ''od''), Plus (Chr is_space)]))"
  have p: "pricePattern = Seq ?opt (Seq (Grp 2 ?D) ?rest)"
    by (simp add: pricePattern_def seqs_def)
  from run obtain st1 where
    st1: "st1 \<in> set (rx_run ?opt s (Map.empty, i))" and
    r1: "(c, j) \<in> set (rx_run (Seq (Grp 2 ?D) ?rest) s st1)"
    unfolding p by (blast dest: rx_run_SeqE)
  from r1 obtain st2 where
    st2: "st2 \<in> set (rx_run (Grp 2 ?D) s st1)" and
    fin: "(c, j) \<in> set (rx_run ?rest s st2)"
    by (blast dest: rx_run_SeqE)
  from rx_run_sound[OF st1] i have i1: "snd st1 \<le> length s" by simp
  from st2 obtain st2' where st2': "st2' \<in> set (rx_run ?D s st1)"
    "fst st2 = (fst st2')(2 \<mapsto> slice s (snd st1) (snd st2'))"
    by (blast dest: rx_run_GrpE)
  from rx_run_sound[OF st2'(1) i1] have "slice s (snd st1) (snd st2') \<in> lang ?D" by simp
  moreover have "2 \<notin> groups ?rest" by (simp add: rx_spaces_def)
  from rx_run_frame[OF fin this] st2'(2) have "c 2 = Some (slice s (snd st1) (snd st2'))" by simp
  ultimately show ?thesis by blast
qed

lemma amended_format_accepts:
  assumes "g \<in> lang (seqs [rx_digits, Chr (\<lambda>c. c = 44), rx_digits])"
  shows "rx_test price_format_amended (g @ ascii '' '' @ [EURO])"
    and "rx_test price_format_amended (ascii ''od '' @ g @ ascii '' '' @ [EURO])"
proof -
  let ?body = "seqs [Opt (Grp 1 (lit (ascii ''od ''))), rx_digits, Chr (\<lambda>c. c = 44), rx_digits,
                lit (ascii '' ''), Chr (\<lambda>c. c = EURO)]"
  have af: "anchor_free ?body"
    by (simp add: anchor_free_seqs anchor_free_lit rx_digits_def Plus_def)
  from assms obtain d1 d2 where g: "g = d1 @ [44] @ d2" "d1 \<in> lang rx_digits" "d2 \<in> lang rx_digits"
    by (auto simp: lang_seqs_Cons lang_seqs_Nil)
  have "[44] \<in> lang (Chr (\<lambda>c. c = 44))" "[EURO] \<in> lang (Chr (\<lambda>c. c = EURO))"
    "ascii '' '' \<in> lang (lit (ascii '' ''))" "[] \<in> lang (seqs [])"
    by (simp_all add: lang_lit lang_seqs_Nil)
  with g(2,3) have tail: "d1 @ [44] @ d2 @ ascii '' '' @ [EURO] @ [] \<in>
      lang (seqs [rx_digits, Chr (\<lambda>c. c = 44), rx_digits, lit (ascii '' ''), Chr (\<lambda>c. c = EURO)])"
    by (intro lang_seqs_ConsI)
  have "[] \<in> lang (Opt (Grp 1 (lit (ascii ''od ''))))"
    "ascii ''od '' \<in> lang (Opt (Grp 1 (lit (ascii ''od ''))))"
    by (simp_all add: lang_lit)
  then have "[] @ d1 @ [44] @ d2 @ ascii '' '' @ [EURO] @ [] \<in> lang ?body"
    "ascii ''od '' @ d1 @ [44] @ d2 @ ascii '' '' @ [EURO] @ [] \<in> lang ?body"
    using tail by (blast intro: lang_seqs_ConsI)+
  then have 1: "g @ ascii '' '' @ [EURO] \<in> lang ?body"
    and 2: "ascii ''od '' @ g @ ascii '' '' @ [EURO] \<in> lang ?body"
    using g(1) by simp_all
  show "rx_test price_format_amended (g @ ascii '' '' @ [EURO])"
    unfolding price_format_amended_def by (rule anchored_test[OF af 1])
  show "rx_test price_format_amended (ascii ''od '' @ g @ ascii '' '' @ [EURO])"
    unfolding price_format_amended_def by (rule anchored_test[OF af 2])
qed

lemma item_price_format:
  assumes "item_price t \<noteq> ascii ''N/A''"
  shows "rx_test price_format_amended (item_price t)"
proof (cases "rx_exec pricePattern t")
  case None
  with assms show ?thesis by (simp add: item_price_def)
next
  case (Some m)
  then obtain i j where "i \<le> length t" "(m_groups m, j) \<in> set (rx_run pricePattern t (Map.empty, i))"
    using rx_exec_from_Some[of pricePattern t 0 m] by (auto simp: rx_exec_def)
  from pricePattern_amount[OF this(2,1)] obtain g where
    g: "m_groups m 2 = Some g" "g \<in> lang (seqs [rx_digits, Chr (\<lambda>c. c = 44), rx_digits])" by blast
  from Some g(1) have "item_price t = g @ ascii '' '' @ [EURO] \<or>
      item_price t = ascii ''od '' @ g @ ascii '' '' @ [EURO]"
    by (simp add: item_price_def Let_def)
  then show ?thesis using amended_format_accepts[OF g(2)] by auto
qed

lemma parse_item_price:
  "parse_item minLength dd vp sectionText t = Some it \<Longrightarrow> \<exists>cleanText. price it = item_price cleanText"
  by (auto simp: parse_item_def Let_def split: if_splits option.splits)

section \<open>Properties of the Item Parser\<close>

lemma parse_item_cleaned_name:
  "parse_item minLength dd vp sectionText t = Some it \<Longrightarrow>
     cleaned_name t = Some (name it) \<and> valid_name (name it)"
  by (auto simp: parse_item_def cleaned_name_def valid_name_def Let_def split: if_splits option.splits)

lemma parse_item_rejects:
  "cleaned_name t = Some n \<Longrightarrow> \<not> valid_name n \<Longrightarrow> parse_item minLength dd vp sectionText t = None"
  by (auto simp: parse_item_def cleaned_name_def valid_name_def Let_def split: if_splits option.splits)

lemma map_filter_cong_filter:
  "(\<And>x. x \<in> set xs \<Longrightarrow> \<not> P x \<Longrightarrow> f x = None) \<Longrightarrow> List.map_filter f xs = List.map_filter f (filter P xs)"
  by (induction xs) (auto simp: List.map_filter_simps split: option.splits)

text \<open>
  C2. Every item the parser emits, in a sampling step or in the fallback pass (both run
  \<open>extract_in_page\<close>), has a name longer than 3 code units that does not contain the euro
  sign; the name an item is emitted with is the cleaned name of the list item it is parsed
  from; a list item whose cleaned name is not valid gives no item, in either pass; and so
  the items of a pass are those of the visible list items of the section whose cleaned name
  is valid.
\<close>

theorem emitted_names_valid:
  "(\<forall>it \<in> set (extract_in_page patterns minLength dd vp doc y h).
      3 < length (name it) \<and> \<not> includes_str (name it) [EURO]) \<and>
   (\<forall>sectionText t it. parse_item minLength dd vp sectionText t = Some it \<longrightarrow>
      cleaned_name t = Some (name it)) \<and>
   (\<forall>sectionText t n. cleaned_name t = Some n \<longrightarrow> \<not> valid_name n \<longrightarrow>
      parse_item minLength dd vp sectionText t = None) \<and>
   (\<forall>sec. find_section_extraction patterns doc = Some sec \<longrightarrow>
      extract_in_page patterns minLength dd vp doc y h =
        List.map_filter
          (\<lambda>item. parse_item minLength dd vp (el_textContent sec) (li_textContent item))
          (filter (\<lambda>item. li_visible y h item \<and>
                     (case cleaned_name (li_textContent item) of
                        None \<Rightarrow> False
                      | Some n \<Rightarrow> valid_name n))
             (el_li sec)))"
proof -
  have emitted: "3 < length (name it) \<and> \<not> includes_str (name it) [EURO]"
    if it: "it \<in> set (extract_in_page patterns minLength dd vp doc y h)" for it
  proof (cases "find_section_extraction patterns doc")
    case None
    then show ?thesis using it by (simp add: extract_in_page_def)
  next
    case (Some sec)
    with it have "it \<in> set (List.map_filter
        (\<lambda>item. parse_item minLength dd vp (el_textContent sec) (li_textContent item))
        (filter (li_visible y h) (el_li sec)))"
      by (simp add: extract_in_page_def)
    then have "\<exists>item \<in> set (filter (li_visible y h) (el_li sec)).
        parse_item minLength dd vp (el_textContent sec) (li_textContent item) = Some it"
      by (rule map_filter_mem)
    then obtain item :: li_node where
      "parse_item minLength dd vp (el_textContent sec) (li_textContent item) = Some it"
      by blast
    from parse_item_cleaned_name[OF this] show ?thesis by (simp add: valid_name_def)
  qed
  have carried: "cleaned_name t = Some (name it)"
    if "parse_item minLength dd vp sectionText t = Some it" for sectionText t it
    using parse_item_cleaned_name[OF that] by simp
  have rejected: "parse_item minLength dd vp sectionText t = None"
    if "cleaned_name t = Some n" "\<not> valid_name n" for sectionText t n
    using that by (rule parse_item_rejects)
  have listed: "extract_in_page patterns minLength dd vp doc y h =
        List.map_filter
          (\<lambda>item. parse_item minLength dd vp (el_textContent sec) (li_textContent item))
          (filter (\<lambda>item. li_visible y h item \<and>
                     (case cleaned_name (li_textContent item) of
                        None \<Rightarrow> False
                      | Some n \<Rightarrow> valid_name n))
             (el_li sec))"
    if sec: "find_section_extraction patterns doc = Some sec" for sec
  proof -
    let ?f = "\<lambda>item. parse_item minLength dd vp (el_textContent sec) (li_textContent item)"
    let ?ok = "\<lambda>item. case cleaned_name (li_textContent item) of None \<Rightarrow> False | Some n \<Rightarrow> valid_name n"
    have "List.map_filter ?f (filter (li_visible y h) (el_li sec)) =
          List.map_filter ?f (filter ?ok (filter (li_visible y h) (el_li sec)))"
    proof (rule map_filter_cong_filter)
      fix item :: li_node assume "\<not> ?ok item"
      then show "?f item = None"
        using parse_item_cleaned_name[of minLength dd vp "el_textContent sec" "li_textContent item"]
        by (cases "?f item") (auto split: option.splits)
    qed
    then show ?thesis
      using sec by (simp add: extract_in_page_def conj_commute)
  qed
  from emitted carried rejected listed show ?thesis by blast
qed

text \<open>
  A section with three list items: \<open>Schnitzel od 5,20 \<euro>\<close> is emitted under its cleaned
  name, and the two items with the cleaned names \<open>Rum\<close> and \<open>Menu 5 \<euro> akcia\<close> are
  rejected by both passes.
\<close>

theorem emitted_names_valid_witness:
  "viewport_extract 1 [menu_section (ascii ''Daily menu Monday'') [rum_shot, scenario_B, euro_in_name]] 0 1024 =
     [\<lparr>name = ascii ''Schnitzel'', price = ascii ''od 5,20 '' @ [EURO], category = ascii ''Daily menu'',
       description = ascii ''Daily menu item'', screenshot = True,
       source = Some (ascii ''daily-menu-section''), viewport = Some (Step 1)\<rparr>] \<and>
   cleaned_name scenario_B = Some (ascii ''Schnitzel'') \<and>
   3 < length (ascii ''Schnitzel'') \<and> \<not> includes_str (ascii ''Schnitzel'') [EURO] \<and>
   cleaned_name rum_shot = Some (ascii ''Rum'') \<and> \<not> valid_name (ascii ''Rum'') \<and>
   parse_item 15 (ascii ''Daily menu item'') (Step 1) (ascii ''Daily menu Monday'') rum_shot = None \<and>
   parse_item 5 (ascii ''Denne menu item'') (Step 1) (ascii ''Daily menu Monday'') rum_shot = None \<and>
   cleaned_name euro_in_name = Some (ascii ''Menu 5 '' @ [EURO] @ ascii '' akcia'') \<and>
   \<not> valid_name (ascii ''Menu 5 '' @ [EURO] @ ascii '' akcia'') \<and>
   parse_item 15 (ascii ''Daily menu item'') (Step 1) (ascii ''Daily menu Monday'') euro_in_name = None \<and>
   parse_item 5 (ascii ''Denne menu item'') (Step 1) (ascii ''Daily menu Monday'') euro_in_name = None"
proof -
  let ?doc = "[menu_section (ascii ''Daily menu Monday'') [rum_shot, scenario_B, euro_in_name]]"
  let ?it = "\<lparr>name = ascii ''Schnitzel'', price = ascii ''od 5,20 '' @ [EURO],
     category = ascii ''Daily menu'', description = ascii ''Daily menu item'', screenshot = True,
     source = Some (ascii ''daily-menu-section''), viewport = Some (Step 1)\<rparr>"
  have run: "viewport_extract 1 ?doc 0 1024 = [?it]"
    by code_simp
  then have h: "?it \<in> set (extract_in_page dailyMenuPatterns_viewport 15 (ascii ''Daily menu item'')
       (Step 1) ?doc 0 1024)"
    by (simp add: viewport_extract_def)
  have b: "parse_item 15 (ascii ''Daily menu item'') (Step 1) (ascii ''Daily menu Monday'') scenario_B = Some ?it"
    by code_simp
  have rum: "cleaned_name rum_shot = Some (ascii ''Rum'')" "\<not> valid_name (ascii ''Rum'')"
    by code_simp+
  have euro: "cleaned_name euro_in_name = Some (ascii ''Menu 5 '' @ [EURO] @ ascii '' akcia'')"
    "\<not> valid_name (ascii ''Menu 5 '' @ [EURO] @ ascii '' akcia'')"
    by code_simp+
  note viewport = emitted_names_valid[of dailyMenuPatterns_viewport 15 "ascii ''Daily menu item''" "Step 1" ?doc 0 1024]
  note fallback = emitted_names_valid[of dailyMenuPatterns 5 "ascii ''Denne menu item''" "Step 1" ?doc 0 1024]
  from viewport h have valid: "3 < length (name ?it) \<and> \<not> includes_str (name ?it) [EURO]"
    by blast
  from viewport b have carried: "cleaned_name scenario_B = Some (name ?it)"
    by blast
  from viewport fallback rum euro have
    "parse_item 15 (ascii ''Daily menu item'') (Step 1) (ascii ''Daily menu Monday'') rum_shot = None"
    "parse_item 5 (ascii ''Denne menu item'') (Step 1) (ascii ''Daily menu Monday'') rum_shot = None"
    "parse_item 15 (ascii ''Daily menu item'') (Step 1) (ascii ''Daily menu Monday'') euro_in_name = None"
    "parse_item 5 (ascii ''Denne menu item'') (Step 1) (ascii ''Daily menu Monday'') euro_in_name = None"
    by blast+
  with run valid carried rum euro show ?thesis by simp
qed

text \<open>
  C3, as the code has it. Of \<open>Soup 1: Goulash 3,50 \<euro> with bread\<close> the parser makes
  the name \<open>Soup 1: Goulash\<close>, the price \<open>3,50 \<euro>\<close> and the description \<open>with bread\<close>:
  the prefixes it strips are the Slovak ones, so of \<open>Polievka 1: Goulash 3,50 \<euro> with bread\<close>
  it makes the name \<open>Goulash\<close> with the same price and description.
\<close>

theorem scenario_A_keeps_english_prefix:
  "map (\<lambda>it. (name it, price it, description it))
     (viewport_extract 1 [menu_section (ascii ''Daily menu Monday'') [scenario_A]] 0 1024)
     = [(ascii ''Soup 1: Goulash'', ascii ''3,50 '' @ [EURO], ascii ''with bread'')] \<and>
   map (\<lambda>it. (name it, price it, description it))
     (viewport_extract 1 [menu_section (ascii ''Daily menu Monday'') [scenario_A_polievka]] 0 1024)
     = [(ascii ''Goulash'', ascii ''3,50 '' @ [EURO], ascii ''with bread'')]"
  by code_simp

theorem scenario_A_name_counterexample:
  "map (\<lambda>it. (name it, price it, description it))
     (viewport_extract 1 [menu_section (ascii ''Daily menu Monday'') [scenario_A]] 0 1024)
     \<noteq> [(ascii ''Goulash'', ascii ''3,50 '' @ [EURO], ascii ''with bread'')]"
  by code_simp

text \<open>
  C1, as the code has it. The price of an emitted item is \<open>N/A\<close> or matches
  \<open>^(od )?\d+,\d+ \<euro>$\<close>: an optional \<open>od\<close>, digits, a comma, one or more digits, a
  space and the euro sign. The patterns of the parser ask for \<open>\d+\<close> after the comma, not
  for two digits.
\<close>

theorem emitted_prices_format:
  assumes "it \<in> set (extract_in_page patterns minLength dd vp doc y h)"
    and "price it \<noteq> ascii ''N/A''"
  shows "rx_test price_format_amended (price it)"
proof (cases "find_section_extraction patterns doc")
  case None
  then show ?thesis using assms by (simp add: extract_in_page_def)
next
  case (Some sec)
  with assms have "it \<in> set (List.map_filter
      (\<lambda>item. parse_item minLength dd vp (el_textContent sec) (li_textContent item))
      (filter (li_visible y h) (el_li sec)))"
    by (simp add: extract_in_page_def)
  then have "\<exists>item \<in> set (filter (li_visible y h) (el_li sec)).
      parse_item minLength dd vp (el_textContent sec) (li_textContent item) = Some it"
    by (rule map_filter_mem)
  then obtain item :: li_node where
    "parse_item minLength dd vp (el_textContent sec) (li_textContent item) = Some it"
    by blast
  then obtain cleanText where "price it = item_price cleanText"
    using parse_item_price by blast
  then show ?thesis using assms(2) item_price_format[of cleanText] by simp
qed

theorem emitted_prices_format_witness:
  "map price (viewport_extract 1 [menu_section (ascii ''Daily menu Monday'') [one_decimal]] 0 1024)
     = [ascii ''3,5 '' @ [EURO]] \<and>
   ascii ''3,5 '' @ [EURO] \<noteq> ascii ''N/A'' \<and>
   rx_test price_format_amended (ascii ''3,5 '' @ [EURO])"
proof -
  let ?it = "\<lparr>name = ascii ''Goulash soup'', price = ascii ''3,5 '' @ [EURO],
     category = ascii ''Daily menu'', description = ascii ''Daily menu item'', screenshot = True,
     source = Some (ascii ''daily-menu-section''), viewport = Some (Step 1)\<rparr>"
  have run: "viewport_extract 1 [menu_section (ascii ''Daily menu Monday'') [one_decimal]] 0 1024 = [?it]"
    by code_simp
  then have h: "?it \<in> set (extract_in_page dailyMenuPatterns_viewport 15 (ascii ''Daily menu item'')
       (Step 1) [menu_section (ascii ''Daily menu Monday'') [one_decimal]] 0 1024)"
    by (simp add: viewport_extract_def)
  have ne: "price ?it \<noteq> ascii ''N/A''" by code_simp
  show ?thesis
    using run ne emitted_prices_format[OF h ne] by simp
qed

text \<open>
  The list item \<open>Goulash soup 3,5 \<euro>\<close> is parsed with the price \<open>3,5 \<euro>\<close>, which has
  one digit after the comma.
\<close>

theorem one_decimal_price_counterexample:
  "map price (viewport_extract 1 [menu_section (ascii ''Daily menu Monday'') [one_decimal]] 0 1024)
     = [ascii ''3,5 '' @ [EURO]] \<and>
   ascii ''3,5 '' @ [EURO] \<noteq> ascii ''N/A'' \<and>
   \<not> rx_test price_format (ascii ''3,5 '' @ [EURO])"
  by code_simp

section \<open>Properties of the Progressive Viewport Sampler\<close>

text \<open>What a method that returned has done: the calls it made, in order.\<close>

lemma step_below_min3_iff: "step_below_min3 step n \<longleftrightarrow> step < steps_bound n"
  by (cases n) auto

lemma io_bind_Inr:
  assumes "io_bind m f s = (Inr y, s'')"
  obtains x s' where "m s = (Inr x, s')" "f x s' = (Inr y, s'')"
  using assms by (auto simp: io_bind_def split: prod.splits sum.splits)

lemma io_then_Inr:
  assumes "io_then m k s = (Inr y, s'')"
  obtains x s' where "m s = (Inr x, s')" "k s' = (Inr y, s'')"
  using assms unfolding io_then_def by (rule io_bind_Inr)

lemma page_call_Inr:
  assumes "page_call w op s = (Inr u, s')" "page s = Some p"
  shows "s' = s\<lparr>calls := calls s @ [OnPage p op]\<rparr>"
  using assms by (auto simp: page_call_def browser_call_def split: option.splits)

lemma evaluate_Inr:
  assumes "evaluate w op f s = (Inr x, s')" "page s = Some p"
  shows "s' = s\<lparr>calls := calls s @ [OnPage p op]\<rparr> \<and> x = f s'"
  using assms
  by (auto simp: evaluate_def io_get_def elim!: io_then_Inr dest: page_call_Inr)

lemma scrollTo_Inr:
  assumes "scrollTo w y s = (Inr u, s')" "page s = Some p"
  shows "calls s' = calls s @ [OnPage p (Eval_scrollTo y)] \<and> page s' = Some p \<and>
         screenshotDir s' = screenshotDir s \<and> location s' = location s"
proof -
  from assms(1) obtain u1 s1 where 1: "page_call w (Eval_scrollTo y) s = (Inr u1, s1)"
    and 2: "io_modify (\<lambda>s. s\<lparr>scrollY := max 0 (min y (scrollHeight w (location s) - innerHeight w))\<rparr>) s1
            = (Inr u, s')"
    unfolding scrollTo_def by (elim io_then_Inr)
  from page_call_Inr[OF 1 assms(2)] 2 assms(2) show ?thesis
    by (auto simp: io_modify_def)
qed

lemma remember_best_Inr:
  assumes "remember_best info y step s = (Inr u, s')"
  shows "calls s' = calls s \<and> page s' = page s \<and> screenshotDir s' = screenshotDir s \<and> location s' = location s"
  using assms by (auto simp: remember_best_def io_modify_def io_return_def split: if_splits)

lemma sample_step_Inr:
  assumes "sample_step w st ts vh step acc s = (Inr r, s')" "page s = Some p"
  shows "calls s' = calls s @ step_calls w (screenshotDir s) st ts p vh step \<and> page s' = Some p \<and>
         screenshotDir s' = screenshotDir s \<and> location s' = location s \<and> length (fst r) = Suc (length (fst acc))"
proof -
  from assms(1) obtain u1 s1 u2 s2 path s3 u4 s4 info s5 u6 s6 items s7 where
    1: "scrollTo w (int step * vh) s = (Inr u1, s1)" and
    2: "page_call w (WaitForTimeout 2000) s1 = (Inr u2, s2)" and
    3: "io_get (\<lambda>s. path_join w (screenshotDir s)
               (site_name st @ ascii ''-'' @ ts @ ascii ''-step'' @ decimal (step + 1) @
                ascii ''.png'')) s2 = (Inr path, s3)" and
    4: "page_call w (Screenshot path False) s3 = (Inr u4, s4)" and
    5: "evaluate w (Eval_dailyMenuInfo (step + 1))
               (\<lambda>s. dailyMenuInfo_in_page (step + 1) (current_document w s) (scrollY s)
                       (innerHeight w)) s4 = (Inr info, s5)" and
    6: "remember_best info (int step * vh) step s5 = (Inr u6, s6)" and
    7: "extractItemsFromCurrentViewport w (step + 1) s6 = (Inr items, s7)" and
    8: "io_return (fst acc @ [path], if items \<noteq> [] then snd acc @ items else snd acc) s7 = (Inr r, s')"
    unfolding sample_step_def by (elim io_then_Inr io_bind_Inr)
  from scrollTo_Inr[OF 1 assms(2)] have a1: "calls s1 = calls s @ [OnPage p (Eval_scrollTo (int step * vh))]"
    "page s1 = Some p" "screenshotDir s1 = screenshotDir s" "location s1 = location s" by simp_all
  from page_call_Inr[OF 2 a1(2)] have a2: "s2 = s1\<lparr>calls := calls s1 @ [OnPage p (WaitForTimeout 2000)]\<rparr>" .
  from 3 have a3: "s3 = s2" "path = path_join w (screenshotDir s2)
               (site_name st @ ascii ''-'' @ ts @ ascii ''-step'' @ decimal (step + 1) @ ascii ''.png'')"
    by (auto simp: io_get_def)
  from a2 a3 a1 have p3: "page s3 = Some p" by simp
  from page_call_Inr[OF 4 p3] have a4: "s4 = s3\<lparr>calls := calls s3 @ [OnPage p (Screenshot path False)]\<rparr>" .
  with p3 have p4: "page s4 = Some p" by simp
  from evaluate_Inr[OF 5 p4] have a5: "s5 = s4\<lparr>calls := calls s4 @ [OnPage p (Eval_dailyMenuInfo (step + 1))]\<rparr>" by simp
  from remember_best_Inr[OF 6] have a6: "calls s6 = calls s5" "page s6 = page s5"
    "screenshotDir s6 = screenshotDir s5" "location s6 = location s5" by simp_all
  from a5 p4 a6 have p6: "page s6 = Some p" by simp
  from 7 have "evaluate w (Eval_viewportItems (step + 1))
      (\<lambda>s. viewport_extract (step + 1) (current_document w s) (scrollY s) (innerHeight w)) s6 = (Inr items, s7)"
    by (simp add: extractItemsFromCurrentViewport_def)
  from evaluate_Inr[OF this p6] have a7: "s7 = s6\<lparr>calls := calls s6 @ [OnPage p (Eval_viewportItems (step + 1))]\<rparr>" by simp
  from 8 have a8: "s' = s7" "fst r = fst acc @ [path]" by (auto simp: io_return_def)
  show ?thesis
    using a1 a2 a3 a4 a5 a6 a7 a8 p6 by (simp add: step_calls_def)
qed

lemma sample_steps_Inr:
  "sample_steps w st ts vh n step acc s = (Inr r, s') \<Longrightarrow> page s = Some p \<Longrightarrow>
     calls s' = calls s @ concat (map (step_calls w (screenshotDir s) st ts p vh) [step..<steps_bound n]) \<and>
     page s' = Some p \<and> screenshotDir s' = screenshotDir s \<and> location s' = location s \<and>
     length (fst r) = length (fst acc) + (steps_bound n - step)"
proof (induction w st ts vh n step acc arbitrary: s rule: sample_steps.induct)
  case (1 w st ts vh n step acc)
  show ?case
  proof (cases "step_below_min3 step n")
    case False
    with "1.prems" show ?thesis
      by (simp add: sample_steps.simps[of w st ts vh n step acc] io_return_def step_below_min3_iff)
  next
    case True
    with "1.prems"(1) obtain acc1 s1 where
      a: "sample_step w st ts vh step acc s = (Inr acc1, s1)" and
      b: "sample_steps w st ts vh n (Suc step) acc1 s1 = (Inr r, s')"
      by (auto simp: sample_steps.simps[of w st ts vh n step acc] elim: io_bind_Inr)
    from sample_step_Inr[OF a "1.prems"(2)] have a': "calls s1 = calls s @ step_calls w (screenshotDir s) st ts p vh step"
      "page s1 = Some p" "screenshotDir s1 = screenshotDir s" "location s1 = location s"
      "length (fst acc1) = Suc (length (fst acc))" by simp_all
    from "1.IH"[OF True b a'(2)] a' True show ?thesis
      by (simp add: step_below_min3_iff upt_conv_Cons)
  qed
qed

lemma progressive_screenshots_Inr:
  assumes run: "progressive_screenshots w st ts s = (Inr acc, s')" and p: "page s = Some p"
  shows "calls s' = calls s @
           [OnPage p Eval_innerHeight, OnPage p Eval_scrollHeight, OnPage p (Eval_scrollTo 0),
            OnPage p (WaitForTimeout 2000)] @
           concat (map (step_calls w (screenshotDir s) st ts p (innerHeight w))
             [0..<steps_bound (scrollSteps_of (scrollHeight w (location s)) (innerHeight w))]) @
           [OnPage p (Eval_scrollTo 0), OnPage p (WaitForTimeout 2000)] \<and>
         length (fst acc) = steps_bound (scrollSteps_of (scrollHeight w (location s)) (innerHeight w))"
proof -
  from run obtain vh s1 th s2 u3 s3 u4 s4 acc5 s5 u6 s6 u7 s7 where
    1: "evaluate w Eval_innerHeight (\<lambda>s. innerHeight w) s = (Inr vh, s1)" and
    2: "evaluate w Eval_scrollHeight (\<lambda>s. scrollHeight w (location s)) s1 = (Inr th, s2)" and
    3: "scrollTo w 0 s2 = (Inr u3, s3)" and
    4: "page_call w (WaitForTimeout 2000) s3 = (Inr u4, s4)" and
    5: "sample_steps w st ts vh (scrollSteps_of th vh) 0 ([], []) s4 = (Inr acc5, s5)" and
    6: "scrollTo w 0 s5 = (Inr u6, s6)" and
    7: "page_call w (WaitForTimeout 2000) s6 = (Inr u7, s7)" and
    8: "io_return acc5 s7 = (Inr acc, s')"
    unfolding progressive_screenshots_def by (elim io_then_Inr io_bind_Inr)
  from evaluate_Inr[OF 1 p] have a1: "s1 = s\<lparr>calls := calls s @ [OnPage p Eval_innerHeight]\<rparr>"
    "vh = innerHeight w" by simp_all
  then have p1: "page s1 = Some p" using p by simp
  from evaluate_Inr[OF 2 p1] a1 have a2: "s2 = s1\<lparr>calls := calls s1 @ [OnPage p Eval_scrollHeight]\<rparr>"
    "th = scrollHeight w (location s)" by simp_all
  then have p2: "page s2 = Some p" using p1 by simp
  from scrollTo_Inr[OF 3 p2] have a3: "calls s3 = calls s2 @ [OnPage p (Eval_scrollTo 0)]"
    "page s3 = Some p" "screenshotDir s3 = screenshotDir s2" "location s3 = location s2" by simp_all
  from page_call_Inr[OF 4 a3(2)] have a4: "s4 = s3\<lparr>calls := calls s3 @ [OnPage p (WaitForTimeout 2000)]\<rparr>" .
  then have p4: "page s4 = Some p" using a3 by simp
  from sample_steps_Inr[OF 5 p4] have a5:
    "calls s5 = calls s4 @ concat (map (step_calls w (screenshotDir s4) st ts p vh)
        [0..<steps_bound (scrollSteps_of th vh)])"
    "page s5 = Some p" "length (fst acc5) = steps_bound (scrollSteps_of th vh)" by simp_all
  from scrollTo_Inr[OF 6 a5(2)] have a6: "calls s6 = calls s5 @ [OnPage p (Eval_scrollTo 0)]"
    "page s6 = Some p" by simp_all
  from page_call_Inr[OF 7 a6(2)] have a7: "s7 = s6\<lparr>calls := calls s6 @ [OnPage p (WaitForTimeout 2000)]\<rparr>" .
  from 8 have a8: "s' = s7" "acc = acc5" by (auto simp: io_return_def)
  show ?thesis
    using a1 a2 a3 a4 a5 a6 a7 a8 by simp
qed

lemma steps_bound_ceiling:
  "0 < vh \<Longrightarrow> steps_bound (scrollSteps_of th vh) = nat (min \<lceil>(of_int th :: rat) / of_int vh\<rceil> 3)"
  by (simp add: scrollSteps_of_def)

text \<open>The rules of \<open>runs\<close>, and the sampling block when no call throws: it returns.\<close>

lemma runsI: "(\<And>s. J s \<Longrightarrow> \<exists>x s'. m s = (Inr x, s') \<and> J s' \<and> Q x) \<Longrightarrow> runs J m Q"
  unfolding runs_def by blast

lemma runsD: "runs J m Q \<Longrightarrow> J s \<Longrightarrow> \<exists>x s'. m s = (Inr x, s') \<and> J s' \<and> Q x"
  unfolding runs_def by blast

lemma runs_return: "Q x \<Longrightarrow> runs J (io_return x) Q"
  by (rule runsI) (simp add: io_return_def)

lemma runs_get: "(\<And>s. J s \<Longrightarrow> Q (f s)) \<Longrightarrow> runs J (io_get f) Q"
  by (rule runsI) (simp add: io_get_def)

lemma runs_modify: "(\<And>s. J s \<Longrightarrow> J (f s)) \<Longrightarrow> Q () \<Longrightarrow> runs J (io_modify f) Q"
  by (rule runsI) (simp add: io_modify_def)

lemma runs_bind: "runs J m R \<Longrightarrow> (\<And>x. R x \<Longrightarrow> runs J (f x) Q) \<Longrightarrow> runs J (io_bind m f) Q"
proof (rule runsI)
  fix s assume m: "runs J m R" and f: "\<And>x. R x \<Longrightarrow> runs J (f x) Q" and s: "J s"
  from runsD[OF m s] obtain x s1 where 1: "m s = (Inr x, s1)" "J s1" "R x" by blast
  from runsD[OF f[OF 1(3)] 1(2)] obtain y s2 where "f x s1 = (Inr y, s2)" "J s2" "Q y" by blast
  with 1 show "\<exists>x s'. io_bind m f s = (Inr x, s') \<and> J s' \<and> Q x" by (simp add: io_bind_def)
qed

lemma runs_then: "runs J m R \<Longrightarrow> runs J k Q \<Longrightarrow> runs J (io_then m k) Q"
  unfolding io_then_def by (rule runs_bind)

lemma runs_catch: "runs J m Q \<Longrightarrow> runs J (io_catch m h) Q"
proof (rule runsI)
  fix s assume m: "runs J m Q" and s: "J s"
  from runsD[OF m s] show "\<exists>x s'. io_catch m h s = (Inr x, s') \<and> J s' \<and> Q x"
    by (auto simp: io_catch_def)
qed

lemma runs_weaken: "runs J m Q \<Longrightarrow> (\<And>x. Q x \<Longrightarrow> Q' x) \<Longrightarrow> runs J m Q'"
  by (rule runsI) (blast dest: runsD)

lemma runs_any: "runs J m Q \<Longrightarrow> runs J m (\<lambda>_. True)"
  by (erule runs_weaken) simp

lemma returns_page_call:
  "\<forall>n. throws w n = None \<Longrightarrow> runs (\<lambda>s. page s = Some p) (page_call w op) (\<lambda>_. True)"
  by (rule runsI) (simp add: page_call_def browser_call_def)

lemma returns_evaluate:
  "\<forall>n. throws w n = None \<Longrightarrow> runs (\<lambda>s. page s = Some p) (evaluate w op f) (\<lambda>_. True)"
  unfolding evaluate_def
  by (intro runs_then[where R="\<lambda>_. True"] returns_page_call runs_get) simp_all

lemma returns_scrollTo:
  "\<forall>n. throws w n = None \<Longrightarrow> runs (\<lambda>s. page s = Some p) (scrollTo w y) (\<lambda>_. True)"
  unfolding scrollTo_def
  by (intro runs_then[where R="\<lambda>_. True"] returns_page_call runs_modify) simp_all

lemma returns_remember_best:
  "runs (\<lambda>s. page s = Some p) (remember_best info y step) (\<lambda>_. True)"
  unfolding remember_best_def
  by (auto intro!: runs_modify runs_return)

lemma returns_sample_step:
  "\<forall>n. throws w n = None \<Longrightarrow>
     runs (\<lambda>s. page s = Some p) (sample_step w st ts vh step acc) (\<lambda>_. True)"
  unfolding sample_step_def extractItemsFromCurrentViewport_def
  by (intro runs_then[where R="\<lambda>_. True"] runs_bind[where R="\<lambda>_. True"] returns_page_call
        returns_evaluate returns_scrollTo returns_remember_best runs_get runs_return)
     simp_all

lemma returns_sample_steps:
  "\<forall>n. throws w n = None \<Longrightarrow>
     runs (\<lambda>s. page s = Some p) (sample_steps w st ts vh k step acc) (\<lambda>_. True)"
proof (induction w st ts vh k step acc rule: sample_steps.induct)
  case (1 w st ts vh k step acc)
  show ?case
  proof (cases "step_below_min3 step k")
    case False
    then show ?thesis
      by (simp add: sample_steps.simps[of w st ts vh k step acc] runs_return)
  next
    case True
    have "runs (\<lambda>s. page s = Some p)
       (io_bind (sample_step w st ts vh step acc)
          (\<lambda>acc'. sample_steps w st ts vh k (Suc step) acc')) (\<lambda>_. True)"
      using "1.IH"[OF True "1.prems"] returns_sample_step[OF "1.prems"]
      by (intro runs_bind[where R="\<lambda>_. True"]) simp_all
    with True show ?thesis
      by (simp add: sample_steps.simps[of w st ts vh k step acc])
  qed
qed

lemma returns_progressive_screenshots:
  "\<forall>n. throws w n = None \<Longrightarrow>
     runs (\<lambda>s. page s = Some p) (progressive_screenshots w st ts) (\<lambda>_. True)"
  unfolding progressive_screenshots_def
  by (intro runs_then[where R="\<lambda>_. True"] runs_bind[where R="\<lambda>_. True"] returns_page_call
        returns_evaluate returns_scrollTo returns_sample_steps runs_return)
     simp_all

text \<open>
  C4. When the window has a positive height and no call throws, the sampling block returns
  and has made exactly the calls of \<open>min(ceil(totalHeight / viewportHeight), 3)\<close> steps
  between its two scrolls to the top, step \<open>i\<close> (from 0) scrolling to
  \<open>i * viewportHeight\<close>, and it keeps that many step screenshots.
\<close>

theorem sampler_attempts_min_ceil_3_steps:
  assumes "page s = Some p" and "0 < innerHeight w" and "\<forall>n. throws w n = None"
  shows "\<exists>acc. fst (progressive_screenshots w st ts s) = Inr acc \<and>
         calls (snd (progressive_screenshots w st ts s)) =
           calls s @
           [OnPage p Eval_innerHeight, OnPage p Eval_scrollHeight, OnPage p (Eval_scrollTo 0),
            OnPage p (WaitForTimeout 2000)] @
           concat (map (step_calls w (screenshotDir s) st ts p (innerHeight w))
             [0..<nat (min \<lceil>(of_int (scrollHeight w (location s)) :: rat) / of_int (innerHeight w)\<rceil> 3)]) @
           [OnPage p (Eval_scrollTo 0), OnPage p (WaitForTimeout 2000)] \<and>
         length (fst acc) =
           nat (min \<lceil>(of_int (scrollHeight w (location s)) :: rat) / of_int (innerHeight w)\<rceil> 3)"
proof -
  from runsD[OF returns_progressive_screenshots[OF assms(3)] assms(1)]
  obtain acc s' where r: "progressive_screenshots w st ts s = (Inr acc, s')" by blast
  from progressive_screenshots_Inr[OF r assms(1)] steps_bound_ceiling[OF assms(2)] r
  show ?thesis by simp
qed

text \<open>Scenario C: a page of 3500 pixels in a window of 1024 is sampled at 0, 1024 and 2048.\<close>

lemma quiet_world_throws: "\<forall>n. throws quiet_world n = None"
  by (simp add: quiet_world_def plain_world_def)

theorem sampler_attempts_min_ceil_3_steps_witness:
  "page ready = Some 0 \<and> 0 < innerHeight quiet_world \<and>
   nat (min \<lceil>(3500 :: rat) / 1024\<rceil> 3) = 3 \<and>
   calls (snd (progressive_screenshots quiet_world site_B (ascii ''T'') ready)) =
     calls ready @
     [OnPage 0 Eval_innerHeight, OnPage 0 Eval_scrollHeight, OnPage 0 (Eval_scrollTo 0),
      OnPage 0 (WaitForTimeout 2000)] @
     concat (map (step_calls quiet_world (ascii ''./screenshots'') site_B (ascii ''T'') 0 1024) [0, 1, 2]) @
     [OnPage 0 (Eval_scrollTo 0), OnPage 0 (WaitForTimeout 2000)] \<and>
   map (\<lambda>i. int i * 1024) [0, 1, 2] = [0, 1024, 2048]"
proof -
  have p: "page ready = Some 0" by (simp add: ready_def)
  have h: "0 < innerHeight quiet_world" by (simp add: quiet_world_def plain_world_def)
  have n: "nat (min \<lceil>(3500 :: rat) / 1024\<rceil> 3) = 3" by simp
  have u: "[0..<3] = [0, 1, 2]" by code_simp
  from sampler_attempts_min_ceil_3_steps[OF p h quiet_world_throws, of site_B "ascii ''T''"] n u p h show ?thesis
    by (auto simp: quiet_world_def plain_world_def ready_def)
qed

section \<open>The page session\<close>

text \<open>
  The rules of \<open>keeps\<close>, and every method of a batch run: each keeps the scraper in the
  session of its page, whatever throws, when the script of the site does.
\<close>

lemma keepsI: "(\<And>s r s'. J s \<Longrightarrow> m s = (r, s') \<Longrightarrow> J s') \<Longrightarrow> keeps J m"
  unfolding keeps_def by (metis prod.collapse)

lemma keepsD: "keeps J m \<Longrightarrow> J s \<Longrightarrow> J (snd (m s))"
  by (simp add: keeps_def)

lemma keeps_return: "keeps J (io_return x)"
  by (rule keepsI) (simp add: io_return_def)

lemma keeps_get: "keeps J (io_get f)"
  by (rule keepsI) (simp add: io_get_def)

lemma keeps_modify: "(\<And>s. J s \<Longrightarrow> J (f s)) \<Longrightarrow> keeps J (io_modify f)"
  by (rule keepsI) (auto simp: io_modify_def)

lemma keeps_bind: "keeps J m \<Longrightarrow> (\<And>x. keeps J (f x)) \<Longrightarrow> keeps J (io_bind m f)"
proof (rule keepsI)
  fix s r s' assume m: "keeps J m" and f: "\<And>x. keeps J (f x)" and s: "J s"
    and run: "io_bind m f s = (r, s')"
  from keepsD[OF m s] have 1: "J (snd (m s))" .
  show "J s'"
  proof (cases "m s")
    case (Pair r1 s1)
    with 1 have s1: "J s1" by simp
    show ?thesis
    proof (cases r1)
      case (Inl e)
      with Pair run s1 show ?thesis by (simp add: io_bind_def)
    next
      case (Inr x)
      with Pair run have "f x s1 = (r, s')" by (simp add: io_bind_def)
      with keepsD[OF f s1, of x] show ?thesis by simp
    qed
  qed
qed

lemma keeps_then: "keeps J m \<Longrightarrow> keeps J k \<Longrightarrow> keeps J (io_then m k)"
  unfolding io_then_def by (rule keeps_bind)

lemma keeps_catch: "keeps J m \<Longrightarrow> (\<And>e. keeps J (h e)) \<Longrightarrow> keeps J (io_catch m h)"
proof (rule keepsI)
  fix s r s' assume m: "keeps J m" and h: "\<And>e. keeps J (h e)" and s: "J s"
    and run: "io_catch m h s = (r, s')"
  from keepsD[OF m s] have 1: "J (snd (m s))" .
  show "J s'"
  proof (cases "m s")
    case (Pair r1 s1)
    with 1 have s1: "J s1" by simp
    show ?thesis
    proof (cases r1)
      case (Inl e)
      with Pair run have "h e s1 = (r, s')" by (simp add: io_catch_def)
      with keepsD[OF h s1, of e] show ?thesis by simp
    next
      case (Inr x)
      with Pair run s1 show ?thesis by (simp add: io_catch_def)
    qed
  qed
qed

lemma keeps_if: "keeps J a \<Longrightarrow> keeps J b \<Longrightarrow> keeps J (if c then a else b)"
  by simp

lemma keeps_page_call: "op \<noteq> Close_page \<Longrightarrow> keeps (in_session p n) (page_call w op)"
  by (rule keepsI)
     (auto simp: page_call_def browser_call_def in_session_def session_call_def
           split: option.splits)

lemmas keeps_rules = keeps_return keeps_get keeps_bind keeps_then keeps_catch keeps_if keeps_page_call

lemma keeps_evaluate: "op \<noteq> Close_page \<Longrightarrow> keeps (in_session p n) (evaluate w op f)"
  unfolding evaluate_def by (intro keeps_rules)

lemma keeps_scrollTo: "keeps (in_session p n) (scrollTo w y)"
  unfolding scrollTo_def by (intro keeps_rules keeps_modify) (simp_all add: in_session_def)

lemma keeps_goto: "keeps (in_session p n) (goto w u ms)"
  unfolding goto_def by (intro keeps_rules keeps_modify) (simp_all add: in_session_def)

lemma keeps_handleCloudflareProtection: "keeps (in_session p n) (handleCloudflareProtection w)"
  unfolding handleCloudflareProtection_def by (intro keeps_rules keeps_evaluate) simp_all

lemma keeps_try_cookieSelectors: "keeps (in_session p n) (try_cookieSelectors w sels)"
  by (induction sels) (auto intro!: keeps_rules keeps_evaluate)

lemma keeps_handle_cookies: "keeps (in_session p n) (handle_cookies w)"
  unfolding handle_cookies_def
  by (intro keeps_rules keeps_evaluate keeps_try_cookieSelectors) simp_all

lemma keeps_run_customScript:
  "script_keeps_session w p st \<Longrightarrow> keeps (in_session p n) (run_customScript w st)"
  unfolding run_customScript_def script_keeps_session_def
  by (auto intro!: keeps_rules split: option.splits)

lemma keeps_wait_for_selector: "keeps (in_session p n) (wait_for_selector w st)"
  unfolding wait_for_selector_def by (auto intro!: keeps_rules split: option.splits)

lemma keeps_scroll_to_load: "keeps (in_session p n) (scroll_to_load w)"
  unfolding scroll_to_load_def by (intro keeps_rules keeps_modify) (simp_all add: in_session_def)

lemma keeps_remember_best: "keeps (in_session p n) (remember_best info y step)"
  unfolding remember_best_def by (intro keeps_rules keeps_modify) (simp_all add: in_session_def)

lemma keeps_sample_step: "keeps (in_session p n) (sample_step w st ts vh step acc)"
  unfolding sample_step_def extractItemsFromCurrentViewport_def
  by (intro keeps_rules keeps_evaluate keeps_scrollTo keeps_remember_best) simp_all

lemma keeps_sample_steps: "keeps (in_session p n) (sample_steps w st ts vh k step acc)"
proof (induction w st ts vh k step acc rule: sample_steps.induct)
  case (1 w st ts vh k step acc)
  show ?case
    unfolding sample_steps.simps[of w st ts vh k step acc]
    using 1 by (auto intro!: keeps_rules keeps_sample_step)
qed

lemma keeps_progressive_screenshots: "keeps (in_session p n) (progressive_screenshots w st ts)"
  unfolding progressive_screenshots_def
  by (intro keeps_rules keeps_evaluate keeps_scrollTo keeps_sample_steps) simp_all

lemma keeps_extractMenuFromScreenshot:
  "keeps (in_session p n) (extractMenuFromScreenshot w path st best)"
  unfolding extractMenuFromScreenshot_def
  by (cases best) (auto intro!: keeps_rules keeps_evaluate keeps_scrollTo)

lemma keeps_now: "keeps J (now w)"
  unfolding now_def by (rule keeps_get)

lemma keeps_scrapeRestaurant:
  assumes "script_keeps_session w p st"
  shows "keeps (in_session p n) (scrapeRestaurant w st)"
  unfolding scrapeRestaurant_def scrapeRestaurant_try_def after_navigation_def
  by (intro keeps_rules keeps_modify keeps_goto keeps_handleCloudflareProtection keeps_handle_cookies
        keeps_run_customScript[OF assms] keeps_wait_for_selector keeps_scroll_to_load keeps_now
        keeps_progressive_screenshots keeps_extractMenuFromScreenshot)
     (simp_all add: in_session_def)

lemma keeps_scrape_site:
  "script_keeps_session w p st \<Longrightarrow> keeps (in_session p n) (scrape_site w st)"
  unfolding scrape_site_def
  by (intro keeps_rules keeps_scrapeRestaurant keeps_now)

lemma keeps_scrape_sites:
  "list_all (script_keeps_session w p) sites \<Longrightarrow> keeps (in_session p n) (scrape_sites w sites results)"
  by (induction sites arbitrary: results) (auto intro!: keeps_rules keeps_scrape_site)

lemma keeps_scrapeAllSites:
  "list_all (script_keeps_session w p) (filter enabled configured) \<Longrightarrow>
     keeps (in_session p n) (scrapeAllSites w configured)"
  unfolding scrapeAllSites_def Let_def
  by (intro keeps_rules keeps_scrape_sites)

lemma plain_world_script_keeps_session: "script_keeps_session (plain_world failing doc) p st"
  unfolding script_keeps_session_def
  by (auto simp: plain_world_def in_session_def session_call_def intro!: keepsI
           split: option.splits)

text \<open>
  C10, as the code has it. The page the scraper holds is the one page of every site run of
  a batch. Nothing \<open>scrapeAllSites\<close> does itself closes or replaces it: when the script of
  every enabled site that has one keeps the session, then, whatever throws,
  \<open>scrapeAllSites\<close> leaves \<open>this.page\<close> as it was, and every call it makes is a call on
  that page other than closing it. The page is released by \<open>close\<close>, whose first call
  closes it.
\<close>

theorem one_session_for_every_site:
  assumes "page s = Some p"
    and "list_all (script_keeps_session w p) (filter enabled configured)"
  shows "page (snd (scrapeAllSites w configured s)) = Some p \<and>
         list_all (session_call p)
           (drop (length (calls s)) (calls (snd (scrapeAllSites w configured s)))) \<and>
         take (Suc (length (calls s))) (calls (snd (close w s))) = calls s @ [OnPage p Close_page]"
proof -
  from assms(1) have "in_session p (length (calls s)) s" by (simp add: in_session_def)
  from keepsD[OF keeps_scrapeAllSites[OF assms(2)] this]
  have "in_session p (length (calls s)) (snd (scrapeAllSites w configured s))" .
  moreover have "take (Suc (length (calls s))) (calls (snd (close w s))) = calls s @ [OnPage p Close_page]"
    using assms(1)
    by (auto simp: close_def io_catch_def io_bind_def io_then_def io_get_def io_return_def
                   page_call_def browser_call_def split: option.splits)
  ultimately show ?thesis by (simp add: in_session_def)
qed

text \<open>
  A batch of two sites, the second with a script that clicks on the page: the first site
  times out, the script of the second runs, and the page is page 0 throughout.
\<close>

theorem one_session_for_every_site_witness:
  "page ready = Some 0 \<and>
   customScript consent_site \<noteq> None \<and>
   page (snd (scrapeAllSites timeout_world [site_A, consent_site] ready)) = Some 0 \<and>
   list_all (session_call 0)
     (drop (length (calls ready)) (calls (snd (scrapeAllSites timeout_world [site_A, consent_site] ready)))) \<and>
   OnPage 0 Click_dialogButton \<in> set (calls (snd (scrapeAllSites timeout_world [site_A, consent_site] ready))) \<and>
   take (Suc (length (calls ready))) (calls (snd (close timeout_world ready))) =
     calls ready @ [OnPage 0 Close_page]"
proof -
  have p: "page ready = Some 0" by (simp add: ready_def)
  have scripts: "list_all (script_keeps_session timeout_world 0) (filter enabled [site_A, consent_site])"
    by (simp add: timeout_world_def plain_world_script_keeps_session)
  have click: "OnPage 0 Click_dialogButton \<in>
      set (calls (snd (scrapeAllSites timeout_world [site_A, consent_site] ready)))"
    by code_simp
  from one_session_for_every_site[OF p scripts] p click
  show ?thesis by (simp add: consent_site_def)
qed

text \<open>
  The page \<open>initialize\<close> creates is page 0. In a batch of two sites both navigations are
  made on page 0, and no call of the batch closes it.
\<close>

theorem shared_session_counterexample:
  "(case initialize timeout_world fresh of (result, s) \<Rightarrow> (result, s = ready)) = (Inr True, True) \<and>
   (case scrapeAllSites timeout_world [site_A, site_B] ready of
      (result, s') \<Rightarrow> (filter is_goto (calls s'), OnPage 0 Close_page \<in> set (calls s'), page s'))
   = ([OnPage 0 (Goto (ascii ''http://a'') 60000), OnPage 0 (Goto (ascii ''http://b'') 60000)],
      False, Some 0)"
  by code_simp

text \<open>
  What the hypothesis on the scripts is there for. Where the script of the first site puts
  a new page in \<open>this.page\<close>, the batch goes on with that page: the second site is visited
  on page 1, and page 1 is what the scraper holds when the batch ends.
\<close>

lemma script_can_replace_the_page:
  "(case scrapeAllSites replacing_world [consent_site, site_B] ready of
      (result, s') \<Rightarrow> (filter is_goto (calls s'), page s'))
   = ([OnPage 0 (Goto (ascii ''http://s'') 60000), OnPage 1 (Goto (ascii ''http://b'') 60000)],
      Some 1)"
  by code_simp

section \<open>Properties of the Aggregator and the Site Runner\<close>

text \<open>
  With a best viewport at hand, the first call of the fallback pass is the scroll to the
  offset of the best viewport when the site is named \<open>Central Pub\<close>, and the extraction
  itself, with no scroll before it, for a site of any other name, whatever throws.
\<close>

lemma fallback_first_call:
  assumes "page s = Some p"
  shows "take 1 (drop (length (calls s))
           (calls (snd (extractMenuFromScreenshot w path st (Some best) s)))) =
         [OnPage p (if site_name st = ascii ''Central Pub'' then Eval_scrollTo (bv_scrollY best)
                    else Eval_fallbackItems)]"
  using assms
  by (auto simp: extractMenuFromScreenshot_def io_catch_def io_then_def io_bind_def io_return_def
        io_get_def io_modify_def scrollTo_def evaluate_def page_call_def browser_call_def
      split: option.splits prod.splits sum.splits)

text \<open>
  When no call throws, each part of the site run that comes before the sampling returns
  and keeps a steady invariant, provided the script of the site leaves the page alone.
\<close>

lemma steady_page: "steady p J \<Longrightarrow> J s \<Longrightarrow> page s = Some p"
  by (simp add: steady_def)

lemma steady_calls: "steady p J \<Longrightarrow> J s \<Longrightarrow> J (s\<lparr>calls := cs\<rparr>)"
  unfolding steady_def same_page_def by (elim conjE allE[of _ s] allE[of _ "s\<lparr>calls := cs\<rparr>"]) simp

lemma steady_top: "steady p J \<Longrightarrow> J s \<Longrightarrow> J (s\<lparr>scrollY := 0\<rparr>)"
  by (simp add: steady_def)

lemma steady_same: "steady p J \<Longrightarrow> J s \<Longrightarrow> same_page s s' \<Longrightarrow> J s'"
  unfolding steady_def by blast

lemma steady_at_site: "steady p (at_site w p u)"
  by (auto simp: steady_def same_page_def at_site_def)


lemma runs_page_call:
  assumes "\<forall>n. throws w n = None" and "steady p J"
  shows "runs J (page_call w op) (\<lambda>_. True)"
proof (rule runsI)
  fix s assume "J s"
  with assms show "\<exists>x s'. page_call w op s = (Inr x, s') \<and> J s' \<and> True"
    by (simp add: page_call_def browser_call_def steady_page[OF assms(2)] steady_calls)
qed

lemma runs_evaluate:
  assumes "\<forall>n. throws w n = None" and "steady p J" and "\<And>s. J s \<Longrightarrow> Q (f s)"
  shows "runs J (evaluate w op f) Q"
  unfolding evaluate_def
  by (rule runs_then[OF runs_page_call[OF assms(1,2)] runs_get]) (rule assms(3))

lemma runs_handleCloudflareProtection:
  assumes quiet: "\<forall>n. throws w n = None" and st: "steady p J"
  shows "runs J (handleCloudflareProtection w) (\<lambda>_. True)"
  unfolding handleCloudflareProtection_def
  apply (rule runs_catch)
  apply (rule runs_bind[where R="\<lambda>_. True"])
   apply (rule runs_evaluate[OF quiet st]; simp)
  apply (simp split del: if_split)
  apply (rule runs_any[of _ _ "\<lambda>_. True"])
  apply (auto intro!: runs_then[where R="\<lambda>_. True"] runs_page_call[OF quiet st]
      runs_evaluate[OF quiet st] runs_return)
  done

lemma runs_try_cookieSelectors:
  assumes quiet: "\<forall>n. throws w n = None" and st: "steady p J"
  shows "runs J (try_cookieSelectors w sels) (\<lambda>_. True)"
proof (induction sels)
  case Nil
  then show ?case by (simp add: runs_return)
next
  case (Cons selector rest)
  have first: "runs J
      (io_catch
        (io_bind (evaluate w (IsVisible selector) (\<lambda>s. selector_visible w (location s) selector))
          (\<lambda>visible.
            if visible
            then io_then (page_call w (Click selector))
                (io_then (page_call w (WaitForTimeout 3000)) (io_return True))
            else io_return False))
        (\<lambda>e. io_return False)) (\<lambda>_. True)"
    by (auto intro!: runs_catch runs_bind[where R="\<lambda>_. True"] runs_evaluate[OF quiet st]
          runs_then[where R="\<lambda>_. True"] runs_page_call[OF quiet st] runs_return)
  show ?case
    using Cons
    by (auto intro!: runs_bind[OF first] runs_return)
qed

lemma runs_handle_cookies:
  assumes quiet: "\<forall>n. throws w n = None" and st: "steady p J"
  shows "runs J (handle_cookies w) (\<lambda>_. True)"
  unfolding handle_cookies_def
  by (auto intro!: runs_catch runs_then[where R="\<lambda>_. True"] runs_bind[where R="\<lambda>_. True"]
        runs_page_call[OF quiet st] runs_try_cookieSelectors[OF quiet st]
        runs_evaluate[OF quiet st] runs_return)

lemma runs_run_customScript:
  assumes st: "steady p J" and script: "script_leaves_page w site"
  shows "runs J (run_customScript w site) (\<lambda>_. True)"
proof (rule runsI)
  fix s assume J: "J s"
  show "\<exists>x s'. run_customScript w site s = (Inr x, s') \<and> J s' \<and> True"
  proof (cases "customScript site")
    case None
    with J show ?thesis by (simp add: run_customScript_def io_return_def)
  next
    case (Some js)
    show ?thesis
    proof (cases "js = []")
      case True
      with Some J show ?thesis by (simp add: run_customScript_def io_return_def)
    next
      case False
      with Some script have "same_page s (snd (eval_script w site s))"
        by (simp add: script_leaves_page_def)
      from steady_same[OF st J this] Some False show ?thesis
        by (cases "eval_script w site s")
           (auto simp: run_customScript_def io_catch_def io_return_def split: sum.splits)
    qed
  qed
qed

lemma runs_wait_for_selector:
  assumes quiet: "\<forall>n. throws w n = None" and st: "steady p J"
  shows "runs J (wait_for_selector w site) (\<lambda>_. True)"
  unfolding wait_for_selector_def
  by (auto intro!: runs_page_call[OF quiet st] runs_return split: option.splits)

lemma runs_scroll_to_load:
  assumes quiet: "\<forall>n. throws w n = None" and st: "steady p J"
  shows "runs J (scroll_to_load w) (\<lambda>_. True)"
  unfolding scroll_to_load_def
  by (auto intro!: runs_catch runs_then[where R="\<lambda>_. True"] runs_page_call[OF quiet st]
        runs_modify steady_top[OF st])

lemma runs_goto:
  assumes quiet: "\<forall>n. throws w n = None" and st: "steady p J"
    and there: "\<And>s. J s \<Longrightarrow> location s = u"
  shows "runs J (goto w u ms) (\<lambda>_. True)"
proof (rule runsI)
  fix s assume J: "J s"
  let ?s' = "s\<lparr>calls := calls s @ [OnPage p (Goto u ms)], location := u, scrollY := 0\<rparr>"
  have "same_page (s\<lparr>scrollY := 0\<rparr>) ?s'"
    using there[OF J] by (simp add: same_page_def)
  from steady_same[OF st steady_top[OF st J] this]
  show "\<exists>x s'. goto w u ms s = (Inr x, s') \<and> J s' \<and> True"
    using quiet steady_page[OF st J]
    by (simp add: goto_def io_then_def io_bind_def io_modify_def page_call_def browser_call_def)
qed

text \<open>The rules of \<open>yields\<close>.\<close>

lemma yieldsI: "(\<And>s. P s \<Longrightarrow> \<exists>x s'. m s = (Inr x, s') \<and> Q x s') \<Longrightarrow> yields P m Q"
  unfolding yields_def by blast

lemma yieldsD: "yields P m Q \<Longrightarrow> P s \<Longrightarrow> \<exists>x s'. m s = (Inr x, s') \<and> Q x s'"
  unfolding yields_def by blast



lemma yields_bind: "yields P m R \<Longrightarrow> (\<And>x. yields (R x) (f x) Q) \<Longrightarrow> yields P (io_bind m f) Q"
proof (rule yieldsI)
  fix s assume m: "yields P m R" and f: "\<And>x. yields (R x) (f x) Q" and s: "P s"
  from yieldsD[OF m s] obtain x s1 where 1: "m s = (Inr x, s1)" "R x s1" by blast
  from yieldsD[OF f 1(2)] obtain y s2 where "f x s1 = (Inr y, s2)" "Q y s2" by blast
  with 1 show "\<exists>x s'. io_bind m f s = (Inr x, s') \<and> Q x s'" by (simp add: io_bind_def)
qed

lemma yields_then: "yields P m (\<lambda>_. R) \<Longrightarrow> yields R k Q \<Longrightarrow> yields P (io_then m k) Q"
  unfolding io_then_def by (rule yields_bind)


lemma yields_runs: "runs J m R \<Longrightarrow> yields J m (\<lambda>x s. J s \<and> R x)"
  by (rule yieldsI) (blast dest: runsD)

lemma runs_yields: "yields J m (\<lambda>x s. J s \<and> R x) \<Longrightarrow> runs J m R"
  by (rule runsI) (blast dest: yieldsD)






lemma yields_keeping: "runs J m (\<lambda>_. True) \<Longrightarrow> yields J m (\<lambda>_. J)"
  by (rule yieldsI) (blast dest: runsD)

lemma yields_before_sampling:
  assumes quiet: "\<forall>n. throws w n = None" and st: "steady p J"
    and there: "\<And>s. J s \<Longrightarrow> location s = site_url site"
    and script: "script_leaves_page w site"
    and rest: "yields J k Q"
  shows "yields J
    (io_bind (handleCloudflareProtection w) (\<lambda>isCloudflareProtected.
     io_then (if isCloudflareProtected
              then io_then (page_call w (WaitForTimeout 15000))
                     (io_catch (goto w (site_url site) 30000) (\<lambda>error. io_return ()))
              else io_return ())
    (io_then (handle_cookies w)
    (io_then (run_customScript w site)
    (io_then (wait_for_selector w site)
    (io_then (scroll_to_load w) k)))))) Q"
proof -
  note pre = yields_keeping
  have again: "runs J (if b then io_then (page_call w (WaitForTimeout 15000))
                     (io_catch (goto w (site_url site) 30000) (\<lambda>error. io_return ()))
              else io_return ()) (\<lambda>_. True)" for b
    by (auto intro!: runs_then[where R="\<lambda>_. True"] runs_page_call[OF quiet st] runs_catch
      runs_goto[OF quiet st there] runs_return)
  show ?thesis
    by (intro yields_bind[where R="\<lambda>_. J"] yields_then[where R=J] pre again rest
          runs_handleCloudflareProtection[OF quiet st] runs_handle_cookies[OF quiet st]
          runs_run_customScript[OF st script] runs_wait_for_selector[OF quiet st]
          runs_scroll_to_load[OF quiet st])
qed


text \<open>
  When no call throws, the sampling and the fallback pass return and leave the page at the
  site, at the top or at a sampled offset; they return no item when no section is accepted
  there.
\<close>

lemma clamp_scroll_0: "clamp_scroll w u 0 = 0"
  by (simp add: clamp_scroll_def)

lemma runs_scrollTo:
  assumes "\<forall>n. throws w n = None" "clamp_scroll w u y \<in> set (0 # sampled_offsets w u)"
  shows "runs (at_site w p u) (scrollTo w y) (\<lambda>_. True)"
  using assms
  by (intro runsI)
     (auto simp: scrollTo_def io_then_def io_bind_def io_modify_def page_call_def browser_call_def
        at_site_def clamp_scroll_def)

lemma sampled_offsets_mem:
  "step < steps_bound (scrollSteps_of (scrollHeight w u) (innerHeight w)) \<Longrightarrow>
     clamp_scroll w u (int step * innerHeight w) \<in> set (sampled_offsets w u)"
  by (auto simp: sampled_offsets_def)

lemma sampled_offsets_top:
  assumes "step < steps_bound (scrollSteps_of (scrollHeight w u) (innerHeight w))"
  shows "set (0 # sampled_offsets w u) = set (sampled_offsets w u)"
proof -
  from assms have "0 < steps_bound (scrollSteps_of (scrollHeight w u) (innerHeight w))" by simp
  from sampled_offsets_mem[OF this] show ?thesis by (auto simp: clamp_scroll_0)
qed

lemma runs_remember_best:
  assumes "step < steps_bound (scrollSteps_of (scrollHeight w u) (innerHeight w))"
  shows "runs (at_site w p u) (remember_best info (int step * innerHeight w) step) (\<lambda>_. True)"
  unfolding remember_best_def
  using sampled_offsets_mem[OF assms]
  by (auto intro!: runs_modify runs_return simp: at_site_def)

lemma extract_in_page_none:
  "find_section_extraction patterns doc = None \<Longrightarrow> extract_in_page patterns ml dd vp doc y h = []"
  by (simp add: extract_in_page_def)

lemma runs_extractItemsFromCurrentViewport:
  assumes quiet: "\<forall>n. throws w n = None"
    and none: "\<forall>y \<in> set (sampled_offsets w u).
       find_section_extraction dailyMenuPatterns_viewport (document_at w u y) = None"
    and step: "step < steps_bound (scrollSteps_of (scrollHeight w u) (innerHeight w))"
  shows "runs (at_site w p u) (extractItemsFromCurrentViewport w k) (\<lambda>items. items = [])"
  unfolding extractItemsFromCurrentViewport_def
proof (rule runs_evaluate[OF quiet steady_at_site])
  fix s assume "at_site w p u s"
  then have "location s = u" "scrollY s \<in> set (sampled_offsets w u)"
    using sampled_offsets_top[OF step] by (auto simp: at_site_def)
  with none show "viewport_extract k (current_document w s) (scrollY s) (innerHeight w) = []"
    by (simp add: viewport_extract_def current_document_def extract_in_page_none)
qed

lemma runs_sample_step:
  assumes quiet: "\<forall>n. throws w n = None"
    and none: "\<forall>y \<in> set (sampled_offsets w u).
       find_section_extraction dailyMenuPatterns_viewport (document_at w u y) = None"
    and step: "step < steps_bound (scrollSteps_of (scrollHeight w u) (innerHeight w))"
  shows "runs (at_site w p u) (sample_step w st ts (innerHeight w) step acc) (\<lambda>r. snd r = snd acc)"
  unfolding sample_step_def
  apply (rule runs_then[where R="\<lambda>_. True"])
   apply (rule runs_scrollTo[OF quiet])
   apply (simp add: sampled_offsets_mem[OF step])
  apply (rule runs_then[where R="\<lambda>_. True"])
   apply (rule runs_page_call[OF quiet steady_at_site])
  apply (rule runs_bind[where R="\<lambda>_. True"])
   apply (rule runs_get, simp)
  apply (rule runs_then[where R="\<lambda>_. True"])
   apply (rule runs_page_call[OF quiet steady_at_site])
  apply (rule runs_bind[where R="\<lambda>_. True"])
   apply (rule runs_evaluate[OF quiet steady_at_site], simp)
  apply (rule runs_then[where R="\<lambda>_. True"])
   apply (rule runs_remember_best[OF step])
  apply (rule runs_bind[where R="\<lambda>items. items = []"])
   apply (rule runs_extractItemsFromCurrentViewport[OF quiet none step])
  apply (rule runs_return)
  apply simp
  done

lemma runs_sample_steps:
  "\<forall>n. throws w n = None \<Longrightarrow>
   \<forall>y \<in> set (sampled_offsets w u).
       find_section_extraction dailyMenuPatterns_viewport (document_at w u y) = None \<Longrightarrow>
   vh = innerHeight w \<Longrightarrow> k = scrollSteps_of (scrollHeight w u) (innerHeight w) \<Longrightarrow>
     runs (at_site w p u) (sample_steps w st ts vh k step acc) (\<lambda>r. snd r = snd acc)"
proof (induction w st ts vh k step acc rule: sample_steps.induct)
  case (1 w st ts vh k step acc)
  show ?case
  proof (cases "step_below_min3 step k")
    case False
    then show ?thesis
      by (simp add: sample_steps.simps[of w st ts vh k step acc] runs_return)
  next
    case True
    then have step: "step < steps_bound (scrollSteps_of (scrollHeight w u) (innerHeight w))"
      using "1.prems" by (simp add: step_below_min3_iff)
    have "runs (at_site w p u)
       (io_bind (sample_step w st ts vh step acc)
          (\<lambda>acc'. sample_steps w st ts vh k (Suc step) acc')) (\<lambda>r. snd r = snd acc)"
    proof (rule runs_bind[where R="\<lambda>r. snd r = snd acc"])
      show "runs (at_site w p u) (sample_step w st ts vh step acc) (\<lambda>r. snd r = snd acc)"
        using runs_sample_step[OF "1.prems"(1,2) step] "1.prems"(3) by simp
    next
      fix acc' :: "jsstring list \<times> menu_item list" assume a: "snd acc' = snd acc"
      from "1.IH"[OF True "1.prems", of acc'] a
      show "runs (at_site w p u) (sample_steps w st ts vh k (Suc step) acc') (\<lambda>r. snd r = snd acc)"
        by simp
    qed
    with True show ?thesis
      by (simp add: sample_steps.simps[of w st ts vh k step acc])
  qed
qed

lemma runs_progressive_screenshots:
  assumes quiet: "\<forall>n. throws w n = None"
    and none: "\<forall>y \<in> set (sampled_offsets w u).
       find_section_extraction dailyMenuPatterns_viewport (document_at w u y) = None"
  shows "runs (at_site w p u) (progressive_screenshots w st ts) (\<lambda>acc. snd acc = [])"
  unfolding progressive_screenshots_def
  apply (rule runs_bind[where R="\<lambda>vh. vh = innerHeight w"])
   apply (rule runs_evaluate[OF quiet steady_at_site], simp)
  apply (rule runs_bind[where R="\<lambda>th. th = scrollHeight w u"])
   apply (rule runs_evaluate[OF quiet steady_at_site], simp add: at_site_def)
  apply (rule runs_then[where R="\<lambda>_. True"])
   apply (rule runs_scrollTo[OF quiet], simp add: clamp_scroll_0)
  apply (rule runs_then[where R="\<lambda>_. True"])
   apply (rule runs_page_call[OF quiet steady_at_site])
  apply (rule runs_bind[where R="\<lambda>acc. snd acc = []"])
   apply (rule runs_weaken)
    apply (rule runs_sample_steps[OF quiet none], simp, simp)
   apply simp
  apply (rule runs_then[where R="\<lambda>_. True"])
   apply (rule runs_scrollTo[OF quiet], simp add: clamp_scroll_0)
  apply (rule runs_then[where R="\<lambda>_. True"])
   apply (rule runs_page_call[OF quiet steady_at_site])
  apply (rule runs_return)
  apply simp
  done

lemma runs_extractMenuFromScreenshot:
  assumes quiet: "\<forall>n. throws w n = None"
    and none: "\<forall>y \<in> set (0 # sampled_offsets w u).
       find_section_extraction dailyMenuPatterns (document_at w u y) = None"
    and best: "case best of None \<Rightarrow> True
               | Some b \<Rightarrow> clamp_scroll w u (bv_scrollY b) \<in> set (0 # sampled_offsets w u)"
  shows "runs (at_site w p u) (extractMenuFromScreenshot w path st best) (\<lambda>items. items = [])"
  unfolding extractMenuFromScreenshot_def
  apply (rule runs_catch)
  apply (rule runs_then[where R="\<lambda>_. True"])
   apply (cases best)
    apply (simp add: runs_return)
  using best apply (auto intro!: runs_then[where R="\<lambda>_. True"] runs_scrollTo[OF quiet]
      runs_page_call[OF quiet steady_at_site] runs_return)[1]
  apply (rule runs_bind[where R="\<lambda>items. items = []"])
   apply (rule runs_evaluate[OF quiet steady_at_site])
  using none apply (auto simp: fallback_extract_def current_document_def extract_in_page_none at_site_def)[1]
  apply (rule runs_then[where R="\<lambda>_. True"])
   apply (rule runs_page_call[OF quiet steady_at_site])
  apply (rule runs_return)
  apply simp
  done

lemma runs_fallback:
  assumes quiet: "\<forall>n. throws w n = None"
    and none: "\<forall>y \<in> set (0 # sampled_offsets w u).
       find_section_extraction dailyMenuPatterns (document_at w u y) = None"
  shows "runs (at_site w p u)
     (io_bind (io_get bestDailyMenuViewport) (extractMenuFromScreenshot w path st))
     (\<lambda>items. items = [])"
proof (rule runsI)
  fix s assume s: "at_site w p u s"
  then have "case bestDailyMenuViewport s of None \<Rightarrow> True
       | Some b \<Rightarrow> clamp_scroll w u (bv_scrollY b) \<in> set (0 # sampled_offsets w u)"
    by (simp add: at_site_def)
  from runsD[OF runs_extractMenuFromScreenshot[OF quiet none this] s]
  show "\<exists>x s'. io_bind (io_get bestDailyMenuViewport) (extractMenuFromScreenshot w path st) s
           = (Inr x, s') \<and> at_site w p u s' \<and> x = []"
    by (simp add: io_bind_def io_get_def)
qed

lemma runs_after_navigation:
  assumes quiet: "\<forall>n. throws w n = None"
    and script: "script_leaves_page w st"
    and none_v: "\<forall>y \<in> set (sampled_offsets w (site_url st)).
       find_section_extraction dailyMenuPatterns_viewport (document_at w (site_url st) y) = None"
    and none_f: "\<forall>y \<in> set (0 # sampled_offsets w (site_url st)).
       find_section_extraction dailyMenuPatterns (document_at w (site_url st) y) = None"
  shows "runs (at_site w p (site_url st)) (after_navigation w st)
     (\<lambda>r. success r \<and> menuData r = Some [] \<and> itemCount r = Some 0 \<and> error r = None)"
  unfolding after_navigation_def
  apply (rule runs_yields)
  apply (rule yields_before_sampling[OF quiet steady_at_site _ script])
   apply (simp add: at_site_def)
  apply (rule yields_runs)
  apply (rule runs_bind[where R="\<lambda>_. True"])
   apply (simp add: now_def runs_get)
  apply (rule runs_bind[where R="\<lambda>acc. snd acc = []"])
   apply (rule runs_progressive_screenshots[OF quiet none_v])
  apply (rule runs_bind[where R="\<lambda>_. True"])
   apply (rule runs_get, simp)
  apply (rule runs_then[where R="\<lambda>_. True"])
   apply (rule runs_page_call[OF quiet steady_at_site])
  apply (rule runs_bind[where R="\<lambda>items. items = []"])
   apply (simp add: runs_fallback[OF quiet none_f])
  apply (rule runs_bind[where R="\<lambda>_. True"])
   apply (simp add: now_def runs_get)
  apply (rule runs_return)
  apply simp
  done

lemma plain_world_script_leaves_page: "script_leaves_page (plain_world failing doc) st"
  unfolding script_leaves_page_def
  by (auto simp: plain_world_def same_page_def split: option.splits)

text \<open>
  C8. When no call throws, the script of the site, if it has one, leaves the page alone,
  the step extraction finds no section at any sampled offset and the fallback extraction
  finds none at the top or at a sampled offset (where it may be anchored), the site run
  returns \<open>success = true\<close> with an empty item list.
\<close>

theorem no_menu_is_success:
  assumes "page s = Some p"
    and "\<forall>n. throws w n = None"
    and "script_leaves_page w st"
    and "\<forall>y \<in> set (sampled_offsets w (site_url st)).
       find_section_extraction dailyMenuPatterns_viewport (document_at w (site_url st) y) = None"
    and "\<forall>y \<in> set (0 # sampled_offsets w (site_url st)).
       find_section_extraction dailyMenuPatterns (document_at w (site_url st) y) = None"
  shows "\<exists>r s'. scrapeRestaurant w st s = (Inr r, s') \<and> success r \<and> menuData r = Some [] \<and>
           itemCount r = Some 0 \<and> error r = None"
proof -
  let ?ms = "case timeout s of None \<Rightarrow> 60000 | Some ms \<Rightarrow> if ms = 0 then 60000 else ms"
  let ?s1 = "s\<lparr>bestDailyMenuViewport := None,
               calls := calls s @ [OnPage p (Goto (site_url st) ?ms)],
               location := site_url st, scrollY := 0\<rparr>"
  have body: "scrapeRestaurant_try w st s = after_navigation w st ?s1"
    using assms(1,2)
    by (simp add: scrapeRestaurant_try_def io_then_def io_bind_def io_modify_def io_get_def
          goto_def page_call_def browser_call_def)
  have "at_site w p (site_url st) ?s1"
    using assms(1) by (simp add: at_site_def)
  from runsD[OF runs_after_navigation[OF assms(2,3,4,5)] this]
  obtain r s' where "after_navigation w st ?s1 = (Inr r, s')"
    "success r \<and> menuData r = Some [] \<and> itemCount r = Some 0 \<and> error r = None" by blast
  with body show ?thesis
    by (simp add: scrapeRestaurant_def io_catch_def)
qed

text \<open>A site without a menu, with a script and without.\<close>

theorem no_menu_is_success_witness:
  "page ready = Some 0 \<and>
   find_section_extraction dailyMenuPatterns_viewport [welcome_div] = None \<and>
   find_section_extraction dailyMenuPatterns [welcome_div] = None \<and>
   map_sum id (\<lambda>r. (success r, menuData r, itemCount r, error r))
     (fst (scrapeRestaurant quiet_world site_B ready)) = Inr (True, Some [], Some 0, None) \<and>
   map_sum id (\<lambda>r. (success r, menuData r, itemCount r, error r))
     (fst (scrapeRestaurant quiet_world consent_site ready)) = Inr (True, Some [], Some 0, None)"
proof -
  have p: "page ready = Some 0" by (simp add: ready_def)
  have v: "find_section_extraction dailyMenuPatterns_viewport [welcome_div] = None" by code_simp
  have f: "find_section_extraction dailyMenuPatterns [welcome_div] = None" by code_simp
  have d: "document_at quiet_world u y = [welcome_div]" for u y
    by (simp add: quiet_world_def plain_world_def)
  have script: "script_leaves_page quiet_world site" for site
    by (simp add: quiet_world_def plain_world_script_leaves_page)
  from no_menu_is_success[OF p quiet_world_throws script, of site_B] v f d
  obtain r s' where "scrapeRestaurant quiet_world site_B ready = (Inr r, s')"
    "success r" "menuData r = Some []" "itemCount r = Some 0" "error r = None"
    by auto
  moreover from no_menu_is_success[OF p quiet_world_throws script, of consent_site] v f d
  obtain r2 s2 where "scrapeRestaurant quiet_world consent_site ready = (Inr r2, s2)"
    "success r2" "menuData r2 = Some []" "itemCount r2 = Some 0" "error r2 = None"
    by auto
  ultimately show ?thesis using p v f by simp
qed






lemma best_after_None: "best_after w u k = None \<longleftrightarrow> (\<forall>i<k. \<not> visible (step_info w u i))"
  by (induction k) (auto simp: less_Suc_eq split: option.splits)

lemma best_after_Some:
  "best_after w u k = Some b \<Longrightarrow>
     \<exists>i<k. visible (step_info w u i) \<and>
       b = \<lparr>bv_visible = True, bv_totalItems = totalItems (step_info w u i),
             bv_visibleItems = visibleItems (step_info w u i),
             bv_sampleText = sampleText (step_info w u i),
             bv_scrollY = int i * innerHeight w, bv_stepNumber = Suc i\<rparr> \<and>
       (\<forall>j<i. visible (step_info w u j) \<longrightarrow>
          visibleItems (step_info w u j) < visibleItems (step_info w u i)) \<and>
       (\<forall>j<k. visible (step_info w u j) \<longrightarrow>
          visibleItems (step_info w u j) \<le> visibleItems (step_info w u i))"
proof (induction k arbitrary: b)
  case 0
  then show ?case by simp
next
  case (Suc k)
  let ?new = "visible (step_info w u k) \<and>
         (case best_after w u k of
            None \<Rightarrow> True
          | Some best \<Rightarrow> bv_visibleItems best < visibleItems (step_info w u k))"
  show ?case
  proof (cases ?new)
    case True
    with Suc.prems have b: "b = \<lparr>bv_visible = True, bv_totalItems = totalItems (step_info w u k),
             bv_visibleItems = visibleItems (step_info w u k),
             bv_sampleText = sampleText (step_info w u k),
             bv_scrollY = int k * innerHeight w, bv_stepNumber = Suc k\<rparr>"
      by simp
    have "visibleItems (step_info w u j) < visibleItems (step_info w u k)"
      if "j < k" "visible (step_info w u j)" for j
    proof (cases "best_after w u k")
      case None
      with that show ?thesis by (simp add: best_after_None)
    next
      case (Some old)
      from Suc.IH[OF Some] that True Some show ?thesis by fastforce
    qed
    with True b show ?thesis
      by (intro exI[of _ k]) (auto simp: less_Suc_eq intro: less_imp_le)
  next
    case False
    with Suc.prems have old: "best_after w u k = Some b" by (simp split: if_splits)
    from Suc.IH[OF old] obtain i where i: "i < k" "visible (step_info w u i)"
      "b = \<lparr>bv_visible = True, bv_totalItems = totalItems (step_info w u i),
             bv_visibleItems = visibleItems (step_info w u i),
             bv_sampleText = sampleText (step_info w u i),
             bv_scrollY = int i * innerHeight w, bv_stepNumber = Suc i\<rparr>"
      "\<forall>j<i. visible (step_info w u j) \<longrightarrow>
          visibleItems (step_info w u j) < visibleItems (step_info w u i)"
      "\<forall>j<k. visible (step_info w u j) \<longrightarrow>
          visibleItems (step_info w u j) \<le> visibleItems (step_info w u i)"
      by blast
    from False old i(3) have "visible (step_info w u k) \<longrightarrow>
        visibleItems (step_info w u k) \<le> visibleItems (step_info w u i)"
      by auto
    with i show ?thesis
      by (intro exI[of _ i]) (auto simp: less_Suc_eq)
  qed
qed




text \<open>
  The batch never throws and reports every enabled site, in order; a site run whose \<open>try\<close>
  block throws is reported with \<open>success = false\<close>, the message, and no item list at all.
\<close>

lemma scrapeRestaurant_returns: "\<exists>r s'. scrapeRestaurant w st s = (Inr r, s')"
  by (cases "scrapeRestaurant_try w st s")
     (auto simp: scrapeRestaurant_def io_catch_def io_return_def split: sum.splits)

lemma scrape_site_returns: "\<exists>r s'. scrape_site w st s = (Inr r, s') \<and> r_name r = site_name st"
  using scrapeRestaurant_returns[of w st s]
  by (auto simp: scrape_site_def io_catch_def io_bind_def io_return_def)

lemma scrape_sites_returns:
  "\<exists>rs s'. scrape_sites w sites results s = (Inr rs, s') \<and>
     map r_name rs = map r_name results @ map site_name sites"
proof (induction sites arbitrary: results s)
  case Nil
  then show ?case by (simp add: io_return_def)
next
  case (Cons st sites)
  from scrape_site_returns[of w st s] obtain r s1 where
    1: "scrape_site w st s = (Inr r, s1)" "r_name r = site_name st" by blast
  from Cons.IH[of "results @ [r]" s1] 1 show ?case by (simp add: io_bind_def)
qed

lemma batch_reports_every_enabled_site:
  "\<exists>rs s'. scrapeAllSites w configured s = (Inr rs, s') \<and>
     map r_name rs = map site_name (filter enabled configured)"
  using scrape_sites_returns[of w "filter enabled configured" "[]" s]
  by (simp add: scrapeAllSites_def Let_def io_return_def)

lemma thrown_error_becomes_result:
  assumes "scrapeRestaurant_try w st s = (Inl message, s')"
  shows "scrape_site w st s =
    (Inr \<lparr>r_name = site_name st, r_url = site_url st, r_success = False, r_scrapedAt = None,
          r_itemCount = None, r_items = None, r_totalCount = None, r_screenshotPath = None,
          r_error = Some message\<rparr>, s')"
  using assms
  by (simp add: scrape_site_def scrapeRestaurant_def io_catch_def io_bind_def io_return_def)

text \<open>
  C6, at a navigation timeout. The first site of a batch of two times out at \<open>page.goto\<close>:
  it is reported with \<open>success = false\<close> and the message, and the second site is scraped
  and reported; but the \<open>items\<close> of the failed site are \<open>undefined\<close> (\<open>None\<close>), not the
  empty list, and so is its item count.
\<close>

theorem failed_site_has_no_items:
  "(case scrapeAllSites timeout_world [site_A, site_B] ready of
      (result, s') \<Rightarrow>
        map_sum id (map (\<lambda>r. (r_name r, r_success r, r_error r, r_items r, r_itemCount r))) result)
   = Inr [(ascii ''A'', False, Some (ascii ''NavigationTimeout''), None, None),
          (ascii ''B'', True, None, Some [], Some 0)]"
  by code_simp

end
